theory Spec2Isabelle
  imports Main "HOL-Library.Sublist"
begin

section \<open>Python strings\<close>

text \<open>
  A Python \<^verbatim>\<open>str\<close> is a sequence of Unicode code points, so a line is a list of code
  points (natural numbers), not of bytes: the glyph of the second script is the single
  code point U+23BF. Paths are kept as Isabelle strings.
\<close>

type_synonym codepoint = nat
type_synonym pystr = "codepoint list"
type_synonym path = string

definition py :: "string \<Rightarrow> pystr" where
  \<comment> \<open>the Python literal with the given ASCII characters\<close>
  "py s = map of_char s"

definition LF :: codepoint where
  "LF = 10"

definition CR :: codepoint where
  "CR = 13"

definition isspace :: "codepoint \<Rightarrow> bool" where
  \<comment> \<open>the characters \<^verbatim>\<open>str.strip()\<close> and \<^verbatim>\<open>str.lstrip()\<close> remove when called with no
      argument: CPython's Unicode whitespace\<close>
  "isspace c =
     ((9 \<le> c \<and> c \<le> 13) \<or> (28 \<le> c \<and> c \<le> 32) \<or> c = 133 \<or> c = 160 \<or> c = 5760
      \<or> (8192 \<le> c \<and> c \<le> 8202) \<or> c = 8232 \<or> c = 8233 \<or> c = 8239 \<or> c = 8287
      \<or> c = 12288)"

definition lstrip :: "pystr \<Rightarrow> pystr" where
  "lstrip s = dropWhile isspace s"

definition rstrip :: "pystr \<Rightarrow> pystr" where
  "rstrip s = rev (dropWhile isspace (rev s))"

definition strip :: "pystr \<Rightarrow> pystr" where
  "strip s = rstrip (lstrip s)"

definition startswith :: "pystr \<Rightarrow> pystr \<Rightarrow> bool" where
  "startswith s p = (take (length p) s = p)"

definition len :: "'a list \<Rightarrow> int" where
  "len xs = int (length xs)"

definition Bash :: pystr where
  \<comment> \<open>the literal \<^verbatim>\<open>'Bash'\<close> of \<^verbatim>\<open>clean_summary.py\<close>\<close>
  "Bash = py ''Bash''"

definition glyph :: pystr where
  \<comment> \<open>the one-character literal of \<^verbatim>\<open>remove_bracket_lines.py\<close>, U+23BF\<close>
  "glyph = [9151]"

section \<open>Files\<close>

text \<open>
  Both scripts open the input in text mode (\<^verbatim>\<open>'r'\<close>, UTF-8, default newline handling),
  read it with \<^verbatim>\<open>readlines()\<close>, and later open the output in text mode (\<^verbatim>\<open>'w'\<close>) and
  call \<^verbatim>\<open>writelines\<close>. Every failure of these calls is an exception that the scripts do
  not catch. A file is modelled by its permissions and its decoded text (\<open>None\<close> when its
  bytes are not valid UTF-8); \<open>creatable\<close> says whether a missing path can be created.
  The line separator of the platform is taken to be \<^verbatim>\<open>"\n"\<close>, so writing stores the text
  as it is.
  Of a refused \<^verbatim>\<open>open\<close> only the refusal matters below, not its kind: a path that is a
  directory, or one in a missing directory, is refused like an unreadable or unwritable one.
\<close>

datatype io_error = FileNotFoundError | PermissionError | UnicodeDecodeError

record text_file =
  readable :: bool
  writable :: bool
  data :: "pystr option"

record filesystem =
  files :: "path \<rightharpoonup> text_file"
  creatable :: "path \<Rightarrow> bool"

definition read_text :: "filesystem \<Rightarrow> path \<Rightarrow> io_error + pystr" where
  "read_text fs p =
     (case files fs p of
        None \<Rightarrow> Inl FileNotFoundError
      | Some f \<Rightarrow>
          if \<not> readable f then Inl PermissionError
          else (case data f of None \<Rightarrow> Inl UnicodeDecodeError | Some t \<Rightarrow> Inr t))"

definition write_text :: "filesystem \<Rightarrow> path \<Rightarrow> pystr \<Rightarrow> io_error + filesystem" where
  "write_text fs p t =
     (case files fs p of
        None \<Rightarrow>
          if creatable fs p
          then Inr (fs\<lparr>files := (files fs)(p \<mapsto> \<lparr>readable = True, writable = True, data = Some t\<rparr>)\<rparr>)
          else Inl PermissionError
      | Some f \<Rightarrow>
          if writable f then Inr (fs\<lparr>files := (files fs)(p \<mapsto> f\<lparr>data := Some t\<rparr>)\<rparr>)
          else Inl PermissionError)"

fun universal_newlines :: "pystr \<Rightarrow> pystr" where
  \<comment> \<open>text-mode reading turns \<^verbatim>\<open>"\r\n"\<close> and a lone \<^verbatim>\<open>"\r"\<close> into \<^verbatim>\<open>"\n"\<close>\<close>
  "universal_newlines [] = []"
| "universal_newlines [c] = (if c = CR then [LF] else [c])"
| "universal_newlines (c # d # cs) =
     (if c = CR \<and> d = LF then LF # universal_newlines cs
      else if c = CR then LF # universal_newlines (d # cs)
      else c # universal_newlines (d # cs))"

fun split_keepends :: "pystr \<Rightarrow> pystr list" where
  \<comment> \<open>cut after every \<^verbatim>\<open>"\n"\<close>, keeping it; a last line may have no terminator\<close>
  "split_keepends [] = []"
| "split_keepends (c # cs) =
     (if c = LF then [c] # split_keepends cs
      else (case split_keepends cs of [] \<Rightarrow> [[c]] | l # ls \<Rightarrow> (c # l) # ls))"

definition readlines :: "filesystem \<Rightarrow> path \<Rightarrow> io_error + pystr list" where
  "readlines fs p =
     (case read_text fs p of
        Inl e \<Rightarrow> Inl e
      | Inr t \<Rightarrow> Inr (split_keepends (universal_newlines t)))"

definition writelines :: "filesystem \<Rightarrow> path \<Rightarrow> pystr list \<Rightarrow> io_error + filesystem" where
  "writelines fs p ls = write_text fs p (concat ls)"

section \<open>clean\_summary.py\<close>

text \<open>
  The two scripts both name their function \<^verbatim>\<open>clean_summary_file\<close>; the one of
  \<^verbatim>\<open>clean_summary.py\<close> is \<open>clean_summary_file_A\<close> here and the one of
  \<^verbatim>\<open>scripts/deprecated/remove_bracket_lines.py\<close> is \<open>clean_summary_file_B\<close>.
  The loop state is the triple of the local variables \<^verbatim>\<open>cleaned_lines\<close>,
  \<^verbatim>\<open>empty_removed\<close> and \<^verbatim>\<open>bash_removed\<close>; the printed summary is the record of the
  values it shows.
\<close>

fun filter_lines_A :: "pystr list \<Rightarrow> pystr list \<times> int \<times> int \<Rightarrow> pystr list \<times> int \<times> int" where
  "filter_lines_A [] st = st"
| "filter_lines_A (line # lines) (cleaned_lines, empty_removed, bash_removed) =
     (if strip line = [] then
        filter_lines_A lines (cleaned_lines, empty_removed + 1, bash_removed)
      else if startswith (lstrip line) Bash then
        filter_lines_A lines (cleaned_lines, empty_removed, bash_removed + 1)
      else
        filter_lines_A lines (cleaned_lines @ [line], empty_removed, bash_removed))"

record report_A =
  original_count :: int
  empty_removed :: int
  bash_removed :: int
  final_count :: int
  output_saved_to :: path

definition clean_summary_file_A ::
  "filesystem \<Rightarrow> path \<Rightarrow> path option \<Rightarrow> io_error + filesystem \<times> report_A" where
  "clean_summary_file_A fs input_path output_path_arg =
     (let output_path = (case output_path_arg of None \<Rightarrow> input_path | Some p \<Rightarrow> p) in
      case readlines fs input_path of
        Inl e \<Rightarrow> Inl e
      | Inr lines \<Rightarrow>
          (case filter_lines_A lines ([], 0, 0) of
             (cleaned_lines, n_empty, n_bash) \<Rightarrow>
               (case writelines fs output_path cleaned_lines of
                  Inl e \<Rightarrow> Inl e
                | Inr fs' \<Rightarrow>
                    Inr (fs', \<lparr>original_count = len lines, empty_removed = n_empty,
                               bash_removed = n_bash, final_count = len cleaned_lines,
                               output_saved_to = output_path\<rparr>))))"

section \<open>scripts/deprecated/remove\_bracket\_lines.py\<close>

fun filter_lines_B :: "pystr list \<Rightarrow> pystr list \<times> int \<Rightarrow> pystr list \<times> int" where
  "filter_lines_B [] st = st"
| "filter_lines_B (line # lines) (cleaned_lines, removed_count) =
     (if startswith (lstrip line) glyph then
        filter_lines_B lines (cleaned_lines, removed_count + 1)
      else
        filter_lines_B lines (cleaned_lines @ [line], removed_count))"

record report_B =
  original_count_B :: int
  removed_count_B :: int
  final_count_B :: int
  output_saved_to_B :: path

definition clean_summary_file_B ::
  "filesystem \<Rightarrow> path \<Rightarrow> path option \<Rightarrow> io_error + filesystem \<times> report_B" where
  "clean_summary_file_B fs input_path output_path_arg =
     (let output_path = (case output_path_arg of None \<Rightarrow> input_path | Some p \<Rightarrow> p) in
      case readlines fs input_path of
        Inl e \<Rightarrow> Inl e
      | Inr lines \<Rightarrow>
          (case filter_lines_B lines ([], 0) of
             (cleaned_lines, n_removed) \<Rightarrow>
               (case writelines fs output_path cleaned_lines of
                  Inl e \<Rightarrow> Inl e
                | Inr fs' \<Rightarrow>
                    Inr (fs', \<lparr>original_count_B = len lines, removed_count_B = n_removed,
                               final_count_B = len cleaned_lines,
                               output_saved_to_B = output_path\<rparr>))))"


section \<open>The predicates as the specification states them\<close>

definition spec_predicate_A :: "pystr \<Rightarrow> bool" where
  "spec_predicate_A line = (strip line = [] \<or> startswith (lstrip line) Bash)"

definition spec_predicate_B :: "pystr \<Rightarrow> bool" where
  "spec_predicate_B line = startswith (lstrip line) glyph"

definition stored_text :: "filesystem \<Rightarrow> path \<Rightarrow> pystr option" where
  "stored_text fs p = (case files fs p of None \<Rightarrow> None | Some f \<Rightarrow> data f)"

definition line_ok :: "pystr \<Rightarrow> bool" where
  "line_ok l = (l \<noteq> [] \<and> LF \<notin> set (butlast l))"

fun wf_lines :: "pystr list \<Rightarrow> bool" where
  "wf_lines [] = True"
| "wf_lines [l] = line_ok l"
| "wf_lines (l # m # ls) = (line_ok l \<and> last l = LF \<and> wf_lines (m # ls))"

definition one_file :: "path \<Rightarrow> pystr \<Rightarrow> filesystem" where
  \<comment> \<open>a directory holding one file, with room for more\<close>
  "one_file p t =
     \<lparr>files = [p \<mapsto> \<lparr>readable = True, writable = True, data = Some t\<rparr>],
      creatable = (\<lambda>q. True)\<rparr>"

fun spec_source_lines :: "pystr \<Rightarrow> pystr list" where
  \<comment> \<open>the lines of a text in their source form, as the specification's glossary has them:
      each a maximal run of characters up to and including its line terminator
      (\<^verbatim>\<open>"\r\n"\<close>, \<^verbatim>\<open>"\r"\<close> or \<^verbatim>\<open>"\n"\<close>, kept as it is), or the final run with none\<close>
  "spec_source_lines [] = []"
| "spec_source_lines [c] = [[c]]"
| "spec_source_lines (c # d # cs) =
     (if c = CR \<and> d = LF then [c, d] # spec_source_lines cs
      else if c = CR \<or> c = LF then [c] # spec_source_lines (d # cs)
      else (case spec_source_lines (d # cs) of [] \<Rightarrow> [[c]] | l # ls \<Rightarrow> (c # l) # ls))"

definition output_text :: "io_error + filesystem \<times> 'r \<Rightarrow> path \<Rightarrow> pystr option" where
  \<comment> \<open>the text a run left in a file, when it returned\<close>
  "output_text res p = (case res of Inl e \<Rightarrow> None | Inr (fs', r) \<Rightarrow> stored_text fs' p)"

section \<open>Whitespace stripping and prefixes\<close>

lemma strip_eq_Nil_iff: "strip s = [] \<longleftrightarrow> (\<forall>c\<in>set s. isspace c)"
proof
  assume "strip s = []"
  then have all: "\<forall>c\<in>set (dropWhile isspace s). isspace c"
    by (simp add: strip_def rstrip_def lstrip_def)
  have "dropWhile isspace s = []"
  proof (rule ccontr)
    assume ne: "dropWhile isspace s \<noteq> []"
    then have "\<not> isspace (hd (dropWhile isspace s))" by (rule hd_dropWhile)
    moreover from ne have "hd (dropWhile isspace s) \<in> set (dropWhile isspace s)" by simp
    ultimately show False using all by blast
  qed
  then show "\<forall>c\<in>set s. isspace c" by simp
next
  assume "\<forall>c\<in>set s. isspace c"
  then have "dropWhile isspace s = []" by simp
  then show "strip s = []" by (simp add: strip_def rstrip_def lstrip_def del: dropWhile_eq_Nil_conv)
qed

lemma lstrip_blank: "strip s = [] \<Longrightarrow> lstrip s = []"
  by (simp add: strip_eq_Nil_iff lstrip_def)

lemma lstrip_append: "\<forall>c\<in>set ws. isspace c \<Longrightarrow> lstrip (ws @ s) = lstrip s"
  by (simp add: lstrip_def dropWhile_append)

lemma lstrip_nonspace: "\<not> isspace c \<Longrightarrow> lstrip (c # s) = c # s"
  by (simp add: lstrip_def)

lemma startswith_append: "startswith (p @ rest) p"
  by (simp add: startswith_def)

lemma startswith_iff: "startswith s p \<longleftrightarrow> (\<exists>rest. s = p @ rest)"
proof
  assume "startswith s p"
  then have "s = p @ drop (length p) s"
    by (metis append_take_drop_id startswith_def)
  then show "\<exists>rest. s = p @ rest" ..
next
  assume "\<exists>rest. s = p @ rest"
  then show "startswith s p" by (auto simp: startswith_def)
qed

lemma startswith_lstrip_iff:
  assumes "\<not> isspace c"
  shows "startswith (lstrip s) (c # p) \<longleftrightarrow>
         (\<exists>ws rest. (\<forall>x\<in>set ws. isspace x) \<and> s = ws @ (c # p) @ rest)"
proof
  assume "startswith (lstrip s) (c # p)"
  then obtain rest where r: "lstrip s = (c # p) @ rest"
    by (auto simp: startswith_iff)
  have "s = takeWhile isspace s @ lstrip s" by (simp add: lstrip_def)
  with r have "s = takeWhile isspace s @ (c # p) @ rest" by simp
  moreover have "\<forall>x\<in>set (takeWhile isspace s). isspace x"
    by (auto dest: set_takeWhileD)
  ultimately show "\<exists>ws rest. (\<forall>x\<in>set ws. isspace x) \<and> s = ws @ (c # p) @ rest"
    by blast
next
  assume "\<exists>ws rest. (\<forall>x\<in>set ws. isspace x) \<and> s = ws @ (c # p) @ rest"
  then obtain ws rest where ws: "\<forall>x\<in>set ws. isspace x" and s: "s = ws @ (c # p) @ rest"
    by blast
  from ws have "lstrip s = lstrip ((c # p) @ rest)" unfolding s by (rule lstrip_append)
  also have "\<dots> = (c # p) @ rest" using assms by (simp add: lstrip_nonspace)
  finally show "startswith (lstrip s) (c # p)"
    using startswith_append [of "c # p" rest] by simp
qed

lemma Bash_unfold: "Bash = 66 # [97, 115, 104]"
  by (simp add: Bash_def py_def)

lemma glyph_unfold: "glyph = 9151 # []"
  by (simp add: glyph_def)

lemma not_isspace_B: "\<not> isspace 66"
  by (simp add: isspace_def)

lemma not_isspace_glyph: "\<not> isspace 9151"
  by (simp add: isspace_def)

lemma blank_not_Bash: "strip s = [] \<Longrightarrow> \<not> startswith (lstrip s) Bash"
  by (simp add: lstrip_blank startswith_def Bash_unfold)

lemma blank_not_glyph: "strip s = [] \<Longrightarrow> \<not> startswith (lstrip s) glyph"
  by (simp add: lstrip_blank startswith_def glyph_unfold)

section \<open>The loops as filters\<close>

lemma filter_lines_A_acc:
  "filter_lines_A lines (c, e, b) =
     (c @ filter (\<lambda>l. \<not> spec_predicate_A l) lines,
      e + len (filter (\<lambda>l. strip l = []) lines),
      b + len (filter (\<lambda>l. startswith (lstrip l) Bash) lines))"
proof (induction lines arbitrary: c e b)
  case Nil
  show ?case by (simp add: len_def)
next
  case (Cons l lines)
  show ?case
  proof (cases "strip l = []")
    case True
    then show ?thesis
      using blank_not_Bash [OF True] by (simp add: Cons.IH spec_predicate_A_def len_def)
  next
    case False
    then show ?thesis by (simp add: Cons.IH spec_predicate_A_def len_def)
  qed
qed

lemma filter_lines_B_acc:
  "filter_lines_B lines (c, n) =
     (c @ filter (\<lambda>l. \<not> spec_predicate_B l) lines, n + len (filter spec_predicate_B lines))"
  by (induction lines arbitrary: c n) (simp_all add: spec_predicate_B_def len_def)

lemma len_filter_split: "len (filter (\<lambda>x. \<not> P x) xs) + len (filter P xs) = len xs"
  using sum_length_filter_compl [of P xs] by (simp add: len_def)

lemma len_removed_A:
  "len (filter (\<lambda>l. strip l = []) lines) + len (filter (\<lambda>l. startswith (lstrip l) Bash) lines)
     = len (filter spec_predicate_A lines)"
proof (induction lines)
  case Nil
  show ?case by (simp add: len_def)
next
  case (Cons l lines)
  then show ?case
    using blank_not_Bash [of l] by (auto simp: spec_predicate_A_def len_def)
qed


section \<open>Reading and writing\<close>

lemma write_text_stored: "write_text fs p t = Inr fs' \<Longrightarrow> stored_text fs' p = Some t"
  by (auto simp: write_text_def stored_text_def split: option.splits if_splits)

lemma write_text_other:
  "write_text fs p t = Inr fs' \<Longrightarrow> q \<noteq> p \<Longrightarrow> files fs' q = files fs q"
  by (auto simp: write_text_def split: option.splits if_splits)

lemma read_text_stored: "read_text fs p = Inr t \<Longrightarrow> stored_text fs p = Some t"
  by (auto simp: read_text_def stored_text_def split: option.splits if_splits)

lemma readlines_stored:
  "readlines fs p = Inr ls \<Longrightarrow>
   \<exists>t. stored_text fs p = Some t \<and> ls = split_keepends (universal_newlines t)"
  by (auto simp: readlines_def split: sum.splits dest: read_text_stored)

lemma read_text_one_file: "read_text (one_file p t) p = Inr t"
  by (simp add: read_text_def one_file_def)

lemma readlines_one_file:
  "readlines (one_file p t) p = Inr (split_keepends (universal_newlines t))"
  by (simp add: readlines_def read_text_one_file)

lemma write_text_one_file: "\<exists>fs'. write_text (one_file p t) q x = Inr fs'"
  by (simp add: write_text_def one_file_def)

section \<open>What a successful run is\<close>

lemma clean_summary_file_A_run:
  "clean_summary_file_A fs ip op = Inr (fs', r) \<longleftrightarrow>
     (\<exists>lines. readlines fs ip = Inr lines \<and>
        writelines fs (case op of None \<Rightarrow> ip | Some p \<Rightarrow> p)
          (filter (\<lambda>l. \<not> spec_predicate_A l) lines) = Inr fs' \<and>
        r = \<lparr>original_count = len lines,
             empty_removed = len (filter (\<lambda>l. strip l = []) lines),
             bash_removed = len (filter (\<lambda>l. startswith (lstrip l) Bash) lines),
             final_count = len (filter (\<lambda>l. \<not> spec_predicate_A l) lines),
             output_saved_to = (case op of None \<Rightarrow> ip | Some p \<Rightarrow> p)\<rparr>)"
  by (auto simp: clean_summary_file_A_def Let_def filter_lines_A_acc split: sum.splits)

lemma clean_summary_file_B_run:
  "clean_summary_file_B fs ip op = Inr (fs', r) \<longleftrightarrow>
     (\<exists>lines. readlines fs ip = Inr lines \<and>
        writelines fs (case op of None \<Rightarrow> ip | Some p \<Rightarrow> p)
          (filter (\<lambda>l. \<not> spec_predicate_B l) lines) = Inr fs' \<and>
        r = \<lparr>original_count_B = len lines,
             removed_count_B = len (filter spec_predicate_B lines),
             final_count_B = len (filter (\<lambda>l. \<not> spec_predicate_B l) lines),
             output_saved_to_B = (case op of None \<Rightarrow> ip | Some p \<Rightarrow> p)\<rparr>)"
  by (auto simp: clean_summary_file_B_def Let_def filter_lines_B_acc split: sum.splits)

lemma clean_summary_file_A_one_file:
  "\<exists>fs' r. clean_summary_file_A (one_file p t) p op = Inr (fs', r)"
  using write_text_one_file
  by (simp add: clean_summary_file_A_run readlines_one_file writelines_def)

lemma clean_summary_file_B_one_file:
  "\<exists>fs' r. clean_summary_file_B (one_file p t) p op = Inr (fs', r)"
  using write_text_one_file
  by (simp add: clean_summary_file_B_run readlines_one_file writelines_def)

text \<open>A run fails only where reading the input or writing the output does.\<close>

lemma clean_summary_file_A_returns:
  "readlines fs ip = Inr lines \<Longrightarrow>
   writelines fs (case op of None \<Rightarrow> ip | Some p \<Rightarrow> p) (filter (\<lambda>l. \<not> spec_predicate_A l) lines) = Inr fs' \<Longrightarrow>
   \<exists>r. clean_summary_file_A fs ip op = Inr (fs', r)"
  by (simp add: clean_summary_file_A_run)

lemma clean_summary_file_B_returns:
  "readlines fs ip = Inr lines \<Longrightarrow>
   writelines fs (case op of None \<Rightarrow> ip | Some p \<Rightarrow> p) (filter (\<lambda>l. \<not> spec_predicate_B l) lines) = Inr fs' \<Longrightarrow>
   \<exists>r. clean_summary_file_B fs ip op = Inr (fs', r)"
  by (simp add: clean_summary_file_B_run)

lemma clean_summary_file_A_loop:
  assumes "readlines fs ip = Inr lines"
    and "clean_summary_file_A fs ip op = Inr (fs', r)"
    and "filter_lines_A lines ([], 0, 0) = (c, e, b)"
  shows "writelines fs (case op of None \<Rightarrow> ip | Some p \<Rightarrow> p) c = Inr fs' \<and>
         r = \<lparr>original_count = len lines, empty_removed = e, bash_removed = b,
              final_count = len c,
              output_saved_to = (case op of None \<Rightarrow> ip | Some p \<Rightarrow> p)\<rparr>"
  using assms by (auto simp: clean_summary_file_A_def Let_def split: sum.splits)

lemma clean_summary_file_B_loop:
  assumes "readlines fs ip = Inr lines"
    and "clean_summary_file_B fs ip op = Inr (fs', r)"
    and "filter_lines_B lines ([], 0) = (c, n)"
  shows "writelines fs (case op of None \<Rightarrow> ip | Some p \<Rightarrow> p) c = Inr fs' \<and>
         r = \<lparr>original_count_B = len lines, removed_count_B = n, final_count_B = len c,
              output_saved_to_B = (case op of None \<Rightarrow> ip | Some p \<Rightarrow> p)\<rparr>"
  using assms by (auto simp: clean_summary_file_B_def Let_def split: sum.splits)

lemma writelines_stored: "writelines fs p ls = Inr fs' \<Longrightarrow> stored_text fs' p = Some (concat ls)"
  by (simp add: writelines_def write_text_stored)

lemmas eval_defs =
  py_def glyph_def Bash_def strip_def lstrip_def rstrip_def startswith_def isspace_def


section \<open>Claims\<close>

text \<open>
  C6. On the five lines \<^verbatim>\<open>"Bash ls\n"\<close>, \<^verbatim>\<open>"\n"\<close>, \<^verbatim>\<open>"   \n"\<close>, \<^verbatim>\<open>"ok\n"\<close>,
  \<^verbatim>\<open>"  Bash echo hi\n"\<close> the loop of \<^verbatim>\<open>clean_summary.py\<close> keeps \<^verbatim>\<open>"ok\n"\<close> alone,
  and a run that reads them writes \<^verbatim>\<open>"ok\n"\<close> and reports 5 original lines, 2 empty
  and 2 Bash lines removed (4 in all), and 1 final line.
\<close>

theorem variant_A_example:
  assumes "readlines fs ip =
             Inr [py ''Bash ls\<newline>'', py ''\<newline>'', py ''   \<newline>'', py ''ok\<newline>'', py ''  Bash echo hi\<newline>'']"
    and "clean_summary_file_A fs ip op = Inr (fs', r)"
  shows "filter_lines_A [py ''Bash ls\<newline>'', py ''\<newline>'', py ''   \<newline>'', py ''ok\<newline>'', py ''  Bash echo hi\<newline>'']
           ([], 0, 0) = ([py ''ok\<newline>''], 2, 2) \<and>
         stored_text fs' (case op of None \<Rightarrow> ip | Some p \<Rightarrow> p) = Some (py ''ok\<newline>'') \<and>
         original_count r = 5 \<and> empty_removed r = 2 \<and> bash_removed r = 2 \<and>
         empty_removed r + bash_removed r = 4 \<and> final_count r = 1"
proof -
  let ?ls = "[py ''Bash ls\<newline>'', py ''\<newline>'', py ''   \<newline>'', py ''ok\<newline>'', py ''  Bash echo hi\<newline>'']"
  have loop: "filter_lines_A ?ls ([], 0, 0) = ([py ''ok\<newline>''], 2, 2)"
    by (simp add: eval_defs)
  from clean_summary_file_A_loop [OF assms loop]
  have w: "writelines fs (case op of None \<Rightarrow> ip | Some p \<Rightarrow> p) [py ''ok\<newline>''] = Inr fs'"
    and r: "r = \<lparr>original_count = len ?ls, empty_removed = 2, bash_removed = 2,
              final_count = len [py ''ok\<newline>''],
              output_saved_to = (case op of None \<Rightarrow> ip | Some p \<Rightarrow> p)\<rparr>"
    by simp_all
  from writelines_stored [OF w]
  have "stored_text fs' (case op of None \<Rightarrow> ip | Some p \<Rightarrow> p) = Some (py ''ok\<newline>'')"
    by simp
  moreover have "original_count r = 5" "empty_removed r = 2" "bash_removed r = 2" "final_count r = 1"
    by (simp_all add: r len_def)
  ultimately show ?thesis using loop by simp
qed

theorem variant_A_example_witness:
  "readlines (one_file ''summary.md'' (py ''Bash ls\<newline>\<newline>   \<newline>ok\<newline>  Bash echo hi\<newline>'')) ''summary.md'' =
     Inr [py ''Bash ls\<newline>'', py ''\<newline>'', py ''   \<newline>'', py ''ok\<newline>'', py ''  Bash echo hi\<newline>''] \<and>
   (\<exists>fs' r. clean_summary_file_A (one_file ''summary.md'' (py ''Bash ls\<newline>\<newline>   \<newline>ok\<newline>  Bash echo hi\<newline>''))
        ''summary.md'' (Some ''summary_cleaned.md'') = Inr (fs', r) \<and>
      stored_text fs' ''summary_cleaned.md'' = Some (py ''ok\<newline>'') \<and>
      original_count r = 5 \<and> empty_removed r = 2 \<and> bash_removed r = 2 \<and> final_count r = 1)"
proof -
  let ?fs = "one_file ''summary.md'' (py ''Bash ls\<newline>\<newline>   \<newline>ok\<newline>  Bash echo hi\<newline>'')"
  have rd: "readlines ?fs ''summary.md'' =
     Inr [py ''Bash ls\<newline>'', py ''\<newline>'', py ''   \<newline>'', py ''ok\<newline>'', py ''  Bash echo hi\<newline>'']"
    by (simp add: readlines_one_file py_def LF_def CR_def)
  obtain fs' r where run:
    "clean_summary_file_A ?fs ''summary.md'' (Some ''summary_cleaned.md'') = Inr (fs', r)"
    using clean_summary_file_A_one_file by blast
  from variant_A_example [OF rd run]
  have "stored_text fs' ''summary_cleaned.md'' = Some (py ''ok\<newline>'') \<and>
      original_count r = 5 \<and> empty_removed r = 2 \<and> bash_removed r = 2 \<and> final_count r = 1"
    by simp
  with rd run show ?thesis by blast
qed

text \<open>
  C7. On the three lines \<^verbatim>\<open>"<glyph> result\n"\<close>, \<^verbatim>\<open>"normal line\n"\<close>,
  \<^verbatim>\<open>"  <glyph> indented result\n"\<close> the loop of \<^verbatim>\<open>remove_bracket_lines.py\<close> keeps
  \<^verbatim>\<open>"normal line\n"\<close> alone, and a run that reads them writes that line and reports
  3 original lines, 2 removed and 1 final line.
\<close>

theorem variant_B_example:
  assumes "readlines fs ip =
             Inr [glyph @ py '' result\<newline>'', py ''normal line\<newline>'',
                  py ''  '' @ glyph @ py '' indented result\<newline>'']"
    and "clean_summary_file_B fs ip op = Inr (fs', r)"
  shows "filter_lines_B [glyph @ py '' result\<newline>'', py ''normal line\<newline>'',
                         py ''  '' @ glyph @ py '' indented result\<newline>'']
           ([], 0) = ([py ''normal line\<newline>''], 2) \<and>
         stored_text fs' (case op of None \<Rightarrow> ip | Some p \<Rightarrow> p) = Some (py ''normal line\<newline>'') \<and>
         original_count_B r = 3 \<and> removed_count_B r = 2 \<and> final_count_B r = 1"
proof -
  let ?ls = "[glyph @ py '' result\<newline>'', py ''normal line\<newline>'',
              py ''  '' @ glyph @ py '' indented result\<newline>'']"
  have loop: "filter_lines_B ?ls ([], 0) = ([py ''normal line\<newline>''], 2)"
    by (simp add: eval_defs)
  from clean_summary_file_B_loop [OF assms loop]
  have w: "writelines fs (case op of None \<Rightarrow> ip | Some p \<Rightarrow> p) [py ''normal line\<newline>''] = Inr fs'"
    and r: "r = \<lparr>original_count_B = len ?ls, removed_count_B = 2,
              final_count_B = len [py ''normal line\<newline>''],
              output_saved_to_B = (case op of None \<Rightarrow> ip | Some p \<Rightarrow> p)\<rparr>"
    by simp_all
  from writelines_stored [OF w]
  have "stored_text fs' (case op of None \<Rightarrow> ip | Some p \<Rightarrow> p) = Some (py ''normal line\<newline>'')"
    by simp
  moreover have "original_count_B r = 3" "removed_count_B r = 2" "final_count_B r = 1"
    by (simp_all add: r len_def)
  ultimately show ?thesis using loop by simp
qed

theorem variant_B_example_witness:
  "readlines (one_file ''summary.md''
       (glyph @ py '' result\<newline>normal line\<newline>  '' @ glyph @ py '' indented result\<newline>'')) ''summary.md'' =
     Inr [glyph @ py '' result\<newline>'', py ''normal line\<newline>'',
          py ''  '' @ glyph @ py '' indented result\<newline>''] \<and>
   (\<exists>fs' r. clean_summary_file_B (one_file ''summary.md''
          (glyph @ py '' result\<newline>normal line\<newline>  '' @ glyph @ py '' indented result\<newline>''))
        ''summary.md'' None = Inr (fs', r) \<and>
      stored_text fs' ''summary.md'' = Some (py ''normal line\<newline>'') \<and>
      original_count_B r = 3 \<and> removed_count_B r = 2 \<and> final_count_B r = 1)"
proof -
  let ?fs = "one_file ''summary.md''
       (glyph @ py '' result\<newline>normal line\<newline>  '' @ glyph @ py '' indented result\<newline>'')"
  have rd: "readlines ?fs ''summary.md'' =
     Inr [glyph @ py '' result\<newline>'', py ''normal line\<newline>'',
          py ''  '' @ glyph @ py '' indented result\<newline>'']"
    by (simp add: readlines_one_file py_def glyph_def LF_def CR_def)
  obtain fs' r where run: "clean_summary_file_B ?fs ''summary.md'' None = Inr (fs', r)"
    using clean_summary_file_B_one_file by blast
  from variant_B_example [OF rd run]
  have "stored_text fs' ''summary.md'' = Some (py ''normal line\<newline>'') \<and>
      original_count_B r = 3 \<and> removed_count_B r = 2 \<and> final_count_B r = 1"
    by simp
  with rd run show ?thesis by blast
qed

text \<open>
  C8. On an empty input file (no lines) both scripts return without an error, provided the
  output can be written: the output file is empty and every reported count is 0.
\<close>

theorem empty_input:
  assumes "read_text fs ip = Inr []"
    and "write_text fs (case op of None \<Rightarrow> ip | Some p \<Rightarrow> p) [] = Inr fs'"
  shows "readlines fs ip = Inr [] \<and>
         clean_summary_file_A fs ip op =
           Inr (fs', \<lparr>original_count = 0, empty_removed = 0, bash_removed = 0, final_count = 0,
                      output_saved_to = (case op of None \<Rightarrow> ip | Some p \<Rightarrow> p)\<rparr>) \<and>
         clean_summary_file_B fs ip op =
           Inr (fs', \<lparr>original_count_B = 0, removed_count_B = 0, final_count_B = 0,
                      output_saved_to_B = (case op of None \<Rightarrow> ip | Some p \<Rightarrow> p)\<rparr>) \<and>
         stored_text fs' (case op of None \<Rightarrow> ip | Some p \<Rightarrow> p) = Some []"
proof -
  from assms(1) have rd: "readlines fs ip = Inr []"
    by (simp add: readlines_def)
  from assms(2) have st: "stored_text fs' (case op of None \<Rightarrow> ip | Some p \<Rightarrow> p) = Some []"
    by (rule write_text_stored)
  from rd assms(2) show ?thesis
    by (simp add: st clean_summary_file_A_def clean_summary_file_B_def writelines_def len_def)
qed

theorem empty_input_witness:
  "read_text (one_file ''summary.md'' []) ''summary.md'' = Inr [] \<and>
   (\<exists>fs'. write_text (one_file ''summary.md'' []) ''summary_cleaned.md'' [] = Inr fs' \<and>
      clean_summary_file_A (one_file ''summary.md'' []) ''summary.md'' (Some ''summary_cleaned.md'') =
        Inr (fs', \<lparr>original_count = 0, empty_removed = 0, bash_removed = 0, final_count = 0,
                   output_saved_to = ''summary_cleaned.md''\<rparr>) \<and>
      clean_summary_file_B (one_file ''summary.md'' []) ''summary.md'' (Some ''summary_cleaned.md'') =
        Inr (fs', \<lparr>original_count_B = 0, removed_count_B = 0, final_count_B = 0,
                   output_saved_to_B = ''summary_cleaned.md''\<rparr>) \<and>
      stored_text fs' ''summary_cleaned.md'' = Some [])"
proof -
  have rd: "read_text (one_file ''summary.md'' []) ''summary.md'' = Inr []"
    by (rule read_text_one_file)
  obtain fs' where w: "write_text (one_file ''summary.md'' []) ''summary_cleaned.md'' [] = Inr fs'"
    using write_text_one_file by blast
  have w': "write_text (one_file ''summary.md'' [])
     (case Some ''summary_cleaned.md'' of None \<Rightarrow> ''summary.md'' | Some p \<Rightarrow> p) [] = Inr fs'"
    using w by simp
  from empty_input [OF rd w'] rd w show ?thesis
    by simp
qed

section \<open>The predicates, character by character\<close>

lemma starts_Bash_iff:
  "startswith (lstrip line) Bash \<longleftrightarrow>
     (\<exists>ws rest. (\<forall>x\<in>set ws. isspace x) \<and> line = ws @ Bash @ rest)"
  unfolding Bash_unfold by (rule startswith_lstrip_iff [OF not_isspace_B])

lemma starts_glyph_iff:
  "startswith (lstrip line) glyph \<longleftrightarrow>
     (\<exists>ws rest. (\<forall>x\<in>set ws. isspace x) \<and> line = ws @ glyph @ rest)"
  unfolding glyph_unfold by (rule startswith_lstrip_iff [OF not_isspace_glyph])

lemma filter_lines_A_single:
  "filter_lines_A [line] ([], 0, 0) =
     (if strip line = [] then ([], 1, 0)
      else if startswith (lstrip line) Bash then ([], 0, 1)
      else ([line], 0, 0))"
  by simp

lemma filter_lines_B_single:
  "filter_lines_B [line] ([], 0) =
     (if startswith (lstrip line) glyph then ([], 1) else ([line], 0))"
  by simp

text \<open>
  C4. \<^verbatim>\<open>clean_summary.py\<close> removes a line exactly when \<^verbatim>\<open>line.strip() == ''\<close> or
  \<^verbatim>\<open>line.lstrip().startswith('Bash')\<close>: when every character is whitespace, or when the
  line is some whitespace followed by the exact characters \<^verbatim>\<open>Bash\<close> and anything. A
  removed blank line is counted as empty, a removed line that is not blank as a Bash line,
  and no line is both. The line \<^verbatim>\<open>"xBash\n"\<close> is kept.
\<close>

theorem variant_A_predicate:
  "(fst (filter_lines_A [line] ([], 0, 0)) = [] \<longleftrightarrow>
      strip line = [] \<or> startswith (lstrip line) Bash) \<and>
   (strip line = [] \<longleftrightarrow> (\<forall>x\<in>set line. isspace x)) \<and>
   (startswith (lstrip line) Bash \<longleftrightarrow>
      (\<exists>ws rest. (\<forall>x\<in>set ws. isspace x) \<and> line = ws @ Bash @ rest)) \<and>
   \<not> (strip line = [] \<and> startswith (lstrip line) Bash) \<and>
   filter_lines_A [line] ([], 0, 0) =
     (if \<forall>x\<in>set line. isspace x then ([], 1, 0)
      else if \<exists>ws rest. (\<forall>x\<in>set ws. isspace x) \<and> line = ws @ Bash @ rest then ([], 0, 1)
      else ([line], 0, 0)) \<and>
   filter_lines_A lines (c, e, b) =
     (c @ filter (\<lambda>l. \<not> (strip l = [] \<or> startswith (lstrip l) Bash)) lines,
      e + len (filter (\<lambda>l. strip l = []) lines),
      b + len (filter (\<lambda>l. strip l \<noteq> [] \<and> startswith (lstrip l) Bash) lines)) \<and>
   filter_lines_A [py ''xBash\<newline>''] ([], 0, 0) = ([py ''xBash\<newline>''], 0, 0)"
proof (intro conjI)
  show "fst (filter_lines_A [line] ([], 0, 0)) = [] \<longleftrightarrow>
      strip line = [] \<or> startswith (lstrip line) Bash"
    by (simp add: filter_lines_A_single)
  show "strip line = [] \<longleftrightarrow> (\<forall>x\<in>set line. isspace x)"
    by (rule strip_eq_Nil_iff)
  show "startswith (lstrip line) Bash \<longleftrightarrow>
      (\<exists>ws rest. (\<forall>x\<in>set ws. isspace x) \<and> line = ws @ Bash @ rest)"
    by (rule starts_Bash_iff)
  show "\<not> (strip line = [] \<and> startswith (lstrip line) Bash)"
    using blank_not_Bash by blast
  show "filter_lines_A [line] ([], 0, 0) =
     (if \<forall>x\<in>set line. isspace x then ([], 1, 0)
      else if \<exists>ws rest. (\<forall>x\<in>set ws. isspace x) \<and> line = ws @ Bash @ rest then ([], 0, 1)
      else ([line], 0, 0))"
    unfolding filter_lines_A_single strip_eq_Nil_iff starts_Bash_iff ..
  have same: "(\<lambda>l. strip l \<noteq> [] \<and> startswith (lstrip l) Bash) = (\<lambda>l. startswith (lstrip l) Bash)"
    using blank_not_Bash by blast
  show "filter_lines_A lines (c, e, b) =
     (c @ filter (\<lambda>l. \<not> (strip l = [] \<or> startswith (lstrip l) Bash)) lines,
      e + len (filter (\<lambda>l. strip l = []) lines),
      b + len (filter (\<lambda>l. strip l \<noteq> [] \<and> startswith (lstrip l) Bash) lines))"
    unfolding same by (simp add: filter_lines_A_acc spec_predicate_A_def)
  show "filter_lines_A [py ''xBash\<newline>''] ([], 0, 0) = ([py ''xBash\<newline>''], 0, 0)"
    by (simp add: eval_defs)
qed

theorem variant_A_predicate_witness:
  "filter_lines_A [py ''  Bash x\<newline>''] ([], 0, 0) = ([], 0, 1) \<and>
   filter_lines_A [py '' \<newline>''] ([], 0, 0) = ([], 1, 0) \<and>
   filter_lines_A [py '' bash\<newline>''] ([], 0, 0) = ([py '' bash\<newline>''], 0, 0) \<and>
   (\<exists>ws rest. (\<forall>x\<in>set ws. isspace x) \<and> py ''  Bash x\<newline>'' = ws @ Bash @ rest) \<and>
   (\<nexists>ws rest. (\<forall>x\<in>set ws. isspace x) \<and> py '' bash\<newline>'' = ws @ Bash @ rest)"
proof -
  have s1: "startswith (lstrip (py ''  Bash x\<newline>'')) Bash" "strip (py ''  Bash x\<newline>'') \<noteq> []"
    by (simp_all add: eval_defs)
  have s2: "strip (py '' \<newline>'') = []"
    by (simp add: eval_defs)
  have s3: "\<not> startswith (lstrip (py '' bash\<newline>'')) Bash" "strip (py '' bash\<newline>'') \<noteq> []"
    by (simp_all add: eval_defs)
  note i1 = variant_A_predicate [of "py ''  Bash x\<newline>''" "[]" "[]" 0 0]
  note i2 = variant_A_predicate [of "py '' \<newline>''" "[]" "[]" 0 0]
  note i3 = variant_A_predicate [of "py '' bash\<newline>''" "[]" "[]" 0 0]
  from i1 s1 have e1: "\<exists>ws rest. (\<forall>x\<in>set ws. isspace x) \<and> py ''  Bash x\<newline>'' = ws @ Bash @ rest"
    and n1: "\<not> (\<forall>x\<in>set (py ''  Bash x\<newline>''). isspace x)"
    by blast+
  from i2 s2 have a2: "\<forall>x\<in>set (py '' \<newline>''). isspace x"
    by blast
  from i3 s3 have e3: "\<nexists>ws rest. (\<forall>x\<in>set ws. isspace x) \<and> py '' bash\<newline>'' = ws @ Bash @ rest"
    and n3: "\<not> (\<forall>x\<in>set (py '' bash\<newline>''). isspace x)"
    by blast+
  from i1 have q1: "filter_lines_A [py ''  Bash x\<newline>''] ([], 0, 0) =
     (if \<forall>x\<in>set (py ''  Bash x\<newline>''). isspace x then ([], 1, 0)
      else if \<exists>ws rest. (\<forall>x\<in>set ws. isspace x) \<and> py ''  Bash x\<newline>'' = ws @ Bash @ rest then ([], 0, 1)
      else ([py ''  Bash x\<newline>''], 0, 0))"
    by blast
  have r1: "filter_lines_A [py ''  Bash x\<newline>''] ([], 0, 0) = ([], 0, 1)"
    unfolding q1 by (simp only: if_not_P [OF n1] if_P [OF e1])
  from i2 have q2: "filter_lines_A [py '' \<newline>''] ([], 0, 0) =
     (if \<forall>x\<in>set (py '' \<newline>''). isspace x then ([], 1, 0)
      else if \<exists>ws rest. (\<forall>x\<in>set ws. isspace x) \<and> py '' \<newline>'' = ws @ Bash @ rest then ([], 0, 1)
      else ([py '' \<newline>''], 0, 0))"
    by blast
  have r2: "filter_lines_A [py '' \<newline>''] ([], 0, 0) = ([], 1, 0)"
    unfolding q2 by (simp only: if_P [OF a2])
  from i3 have q3: "filter_lines_A [py '' bash\<newline>''] ([], 0, 0) =
     (if \<forall>x\<in>set (py '' bash\<newline>''). isspace x then ([], 1, 0)
      else if \<exists>ws rest. (\<forall>x\<in>set ws. isspace x) \<and> py '' bash\<newline>'' = ws @ Bash @ rest then ([], 0, 1)
      else ([py '' bash\<newline>''], 0, 0))"
    by blast
  have r3: "filter_lines_A [py '' bash\<newline>''] ([], 0, 0) = ([py '' bash\<newline>''], 0, 0)"
    unfolding q3 by (simp only: if_not_P [OF n3] if_not_P [OF e3])
  from r1 r2 r3 e1 e3 show ?thesis by blast
qed

text \<open>
  C5. \<^verbatim>\<open>remove_bracket_lines.py\<close> removes a line exactly when
  \<^verbatim>\<open>line.lstrip().startswith(glyph)\<close>: when the line is some whitespace followed by the
  code point U+23BF and anything. Every other line is kept, blank and whitespace-only
  lines among them.
\<close>

theorem variant_B_predicate:
  "(fst (filter_lines_B [line] ([], 0)) = [] \<longleftrightarrow> startswith (lstrip line) glyph) \<and>
   (startswith (lstrip line) glyph \<longleftrightarrow>
      (\<exists>ws rest. (\<forall>x\<in>set ws. isspace x) \<and> line = ws @ glyph @ rest)) \<and>
   filter_lines_B [line] ([], 0) =
     (if \<exists>ws rest. (\<forall>x\<in>set ws. isspace x) \<and> line = ws @ glyph @ rest then ([], 1)
      else ([line], 0)) \<and>
   ((\<forall>x\<in>set line. isspace x) \<longrightarrow> filter_lines_B [line] ([], 0) = ([line], 0)) \<and>
   filter_lines_B lines (c, n) =
     (c @ filter (\<lambda>l. \<not> startswith (lstrip l) glyph) lines,
      n + len (filter (\<lambda>l. startswith (lstrip l) glyph) lines))"
proof (intro conjI impI)
  show "fst (filter_lines_B [line] ([], 0)) = [] \<longleftrightarrow> startswith (lstrip line) glyph"
    by (simp add: filter_lines_B_single)
  show "startswith (lstrip line) glyph \<longleftrightarrow>
      (\<exists>ws rest. (\<forall>x\<in>set ws. isspace x) \<and> line = ws @ glyph @ rest)"
    by (rule starts_glyph_iff)
  show "filter_lines_B [line] ([], 0) =
     (if \<exists>ws rest. (\<forall>x\<in>set ws. isspace x) \<and> line = ws @ glyph @ rest then ([], 1)
      else ([line], 0))"
    unfolding filter_lines_B_single starts_glyph_iff ..
  show "filter_lines_B lines (c, n) =
     (c @ filter (\<lambda>l. \<not> startswith (lstrip l) glyph) lines,
      n + len (filter (\<lambda>l. startswith (lstrip l) glyph) lines))"
    using filter_lines_B_acc [of lines c n] by (simp add: spec_predicate_B_def [abs_def])
next
  assume "\<forall>x\<in>set line. isspace x"
  then have "strip line = []" by (simp add: strip_eq_Nil_iff)
  then have "\<not> startswith (lstrip line) glyph" by (rule blank_not_glyph)
  then show "filter_lines_B [line] ([], 0) = ([line], 0)"
    by (simp add: filter_lines_B_single)
qed

theorem variant_B_predicate_witness:
  "filter_lines_B [py ''  '' @ glyph @ py '' done\<newline>''] ([], 0) = ([], 1) \<and>
   (\<exists>ws rest. (\<forall>x\<in>set ws. isspace x) \<and> py ''  '' @ glyph @ py '' done\<newline>'' = ws @ glyph @ rest) \<and>
   list_all isspace (py ''  \<newline>'') \<and>
   filter_lines_B [py ''  \<newline>''] ([], 0) = ([py ''  \<newline>''], 0)"
proof -
  have s1: "startswith (lstrip (py ''  '' @ glyph @ py '' done\<newline>'')) glyph"
    by (simp add: eval_defs)
  note i1 = variant_B_predicate [of "py ''  '' @ glyph @ py '' done\<newline>''" "[]" "[]" 0]
  from i1 s1 have e1:
    "\<exists>ws rest. (\<forall>x\<in>set ws. isspace x) \<and> py ''  '' @ glyph @ py '' done\<newline>'' = ws @ glyph @ rest"
    by blast
  from i1 have q1: "filter_lines_B [py ''  '' @ glyph @ py '' done\<newline>''] ([], 0) =
     (if \<exists>ws rest. (\<forall>x\<in>set ws. isspace x) \<and> py ''  '' @ glyph @ py '' done\<newline>'' = ws @ glyph @ rest
      then ([], 1) else ([py ''  '' @ glyph @ py '' done\<newline>''], 0))"
    by blast
  have r1: "filter_lines_B [py ''  '' @ glyph @ py '' done\<newline>''] ([], 0) = ([], 1)"
    unfolding q1 by (simp only: if_P [OF e1])
  have sp: "list_all isspace (py ''  \<newline>'')"
    by (simp add: py_def isspace_def)
  then have a2: "\<forall>x\<in>set (py ''  \<newline>''). isspace x"
    by (simp add: list_all_iff)
  from variant_B_predicate [of "py ''  \<newline>''" "[]" "[]" 0] a2
  have r2: "filter_lines_B [py ''  \<newline>''] ([], 0) = ([py ''  \<newline>''], 0)"
    by blast
  from r1 e1 sp r2 show ?thesis by blast
qed

section \<open>The loops on a sequence with one more line\<close>

lemma filter_lines_A_snoc:
  "filter_lines_A (lines @ [line]) st = filter_lines_A [line] (filter_lines_A lines st)"
  by (induction lines st rule: filter_lines_A.induct) simp_all

lemma filter_lines_B_snoc:
  "filter_lines_B (lines @ [line]) st = filter_lines_B [line] (filter_lines_B lines st)"
  by (induction lines st rule: filter_lines_B.induct) simp_all

lemma lstrip_marker:
  assumes "\<forall>x\<in>set ws. isspace x" and "\<not> isspace c"
  shows "lstrip (ws @ c # p) = c # p"
  using assms by (simp add: lstrip_append lstrip_nonspace)

lemma strip_marker:
  assumes "\<not> isspace c"
  shows "strip (ws @ c # p) \<noteq> []"
  using assms by (auto simp: strip_eq_Nil_iff)

text \<open>
  C10. A last line that is only the marker, with no line terminator and possibly with
  whitespace before it, is removed: \<^verbatim>\<open>Bash\<close> by \<^verbatim>\<open>clean_summary.py\<close> (counted as a
  Bash line) and the glyph by \<^verbatim>\<open>remove_bracket_lines.py\<close>, since a string starts with
  itself.
\<close>

theorem marker_only_last_line:
  assumes "\<forall>x\<in>set ws. isspace x"
  shows "startswith Bash Bash \<and> startswith glyph glyph \<and>
         filter_lines_A (lines @ [ws @ Bash]) ([], 0, 0) =
           (case filter_lines_A lines ([], 0, 0) of (c, e, b) \<Rightarrow> (c, e, b + 1)) \<and>
         filter_lines_B (lines @ [ws @ glyph]) ([], 0) =
           (case filter_lines_B lines ([], 0) of (c, n) \<Rightarrow> (c, n + 1))"
proof (intro conjI)
  show "startswith Bash Bash" by (simp add: startswith_def)
  show "startswith glyph glyph" by (simp add: startswith_def)
  have "lstrip (ws @ Bash) = Bash" "strip (ws @ Bash) \<noteq> []"
    unfolding Bash_unfold
    by (rule lstrip_marker [OF assms not_isspace_B], rule strip_marker [OF not_isspace_B])
  then have a: "filter_lines_A [ws @ Bash] (c, e, b) = (c, e, b + 1)" for c e b
    by (simp add: startswith_def)
  show "filter_lines_A (lines @ [ws @ Bash]) ([], 0, 0) =
           (case filter_lines_A lines ([], 0, 0) of (c, e, b) \<Rightarrow> (c, e, b + 1))"
    unfolding filter_lines_A_snoc by (cases "filter_lines_A lines ([], 0, 0)") (simp only: a prod.case)
  have "lstrip (ws @ glyph) = glyph"
    unfolding glyph_unfold by (rule lstrip_marker [OF assms not_isspace_glyph])
  then have b: "filter_lines_B [ws @ glyph] (c, n) = (c, n + 1)" for c n
    by (simp add: startswith_def)
  show "filter_lines_B (lines @ [ws @ glyph]) ([], 0) =
           (case filter_lines_B lines ([], 0) of (c, n) \<Rightarrow> (c, n + 1))"
    unfolding filter_lines_B_snoc by (cases "filter_lines_B lines ([], 0)") (simp only: b prod.case)
qed

theorem marker_only_last_line_witness:
  "list_all isspace (py ''  '') \<and>
   readlines (one_file ''summary.md'' (py ''ok\<newline>  Bash'')) ''summary.md'' = Inr [py ''ok\<newline>'', py ''  Bash''] \<and>
   filter_lines_A [py ''ok\<newline>'', py ''  Bash''] ([], 0, 0) = ([py ''ok\<newline>''], 0, 1) \<and>
   readlines (one_file ''summary.md'' (py ''ok\<newline>  '' @ glyph)) ''summary.md'' = Inr [py ''ok\<newline>'', py ''  '' @ glyph] \<and>
   filter_lines_B [py ''ok\<newline>'', py ''  '' @ glyph] ([], 0) = ([py ''ok\<newline>''], 1)"
proof -
  have sp: "list_all isspace (py ''  '')"
    by (simp add: py_def isspace_def)
  then have ws: "\<forall>x\<in>set (py ''  ''). isspace x"
    by (simp add: list_all_iff)
  have ra: "readlines (one_file ''summary.md'' (py ''ok\<newline>  Bash'')) ''summary.md'' = Inr [py ''ok\<newline>'', py ''  Bash'']"
    by (simp add: readlines_one_file py_def LF_def CR_def)
  have rb: "readlines (one_file ''summary.md'' (py ''ok\<newline>  '' @ glyph)) ''summary.md'' = Inr [py ''ok\<newline>'', py ''  '' @ glyph]"
    by (simp add: readlines_one_file py_def glyph_def LF_def CR_def)
  have la: "filter_lines_A [py ''ok\<newline>''] ([], 0, 0) = ([py ''ok\<newline>''], 0, 0)"
    by (simp add: eval_defs)
  have lb: "filter_lines_B [py ''ok\<newline>''] ([], 0) = ([py ''ok\<newline>''], 0)"
    by (simp add: eval_defs)
  have app: "[py ''ok\<newline>'', py ''  Bash''] = [py ''ok\<newline>''] @ [py ''  '' @ Bash]"
    by (simp add: py_def Bash_def)
  note inst = marker_only_last_line [OF ws, of "[py ''ok\<newline>'']"]
  from inst have "filter_lines_A ([py ''ok\<newline>''] @ [py ''  '' @ Bash]) ([], 0, 0) =
      (case filter_lines_A [py ''ok\<newline>''] ([], 0, 0) of (c, e, b) \<Rightarrow> (c, e, b + 1))"
    by blast
  then have fa: "filter_lines_A [py ''ok\<newline>'', py ''  Bash''] ([], 0, 0) = ([py ''ok\<newline>''], 0, 1)"
    unfolding la app [symmetric] by simp
  from inst have "filter_lines_B ([py ''ok\<newline>''] @ [py ''  '' @ glyph]) ([], 0) =
      (case filter_lines_B [py ''ok\<newline>''] ([], 0) of (c, n) \<Rightarrow> (c, n + 1))"
    by blast
  then have fb: "filter_lines_B [py ''ok\<newline>'', py ''  '' @ glyph] ([], 0) = ([py ''ok\<newline>''], 1)"
    unfolding lb by simp
  from sp ra fa rb fb show ?thesis by blast
qed

section \<open>Reading back what was written\<close>

lemma wf_lines_Cons:
  "wf_lines (l # ls) \<longleftrightarrow> line_ok l \<and> (ls \<noteq> [] \<longrightarrow> last l = LF) \<and> wf_lines ls"
  by (cases ls) auto

lemma line_ok_Cons:
  "line_ok (c # l) \<longleftrightarrow> l = [] \<or> (c \<noteq> LF \<and> line_ok l)"
  by (auto simp: line_ok_def)

lemma wf_split_keepends: "wf_lines (split_keepends t)"
proof (induction t)
  case Nil
  show ?case by simp
next
  case (Cons c cs)
  show ?case
  proof (cases "c = LF")
    case True
    with Cons show ?thesis by (simp add: wf_lines_Cons line_ok_def del: wf_lines.simps)
  next
    case False
    show ?thesis
    proof (cases "split_keepends cs")
      case Nil
      with False show ?thesis by (simp add: line_ok_def)
    next
      case (Cons l ls)
      with Cons.IH have "line_ok l" "ls \<noteq> [] \<longrightarrow> last l = LF" "wf_lines ls"
        by (simp_all add: wf_lines_Cons del: wf_lines.simps)
      moreover from \<open>line_ok l\<close> have "l \<noteq> []" by (simp add: line_ok_def)
      ultimately show ?thesis using False Cons
        by (simp add: wf_lines_Cons line_ok_Cons del: wf_lines.simps)
    qed
  qed
qed

lemma wf_lines_filter: "wf_lines ls \<Longrightarrow> wf_lines (filter P ls)"
proof (induction ls)
  case Nil
  show ?case by simp
next
  case (Cons l ls)
  from Cons.prems have l: "line_ok l" "ls \<noteq> [] \<longrightarrow> last l = LF" and "wf_lines ls"
    by (simp_all add: wf_lines_Cons del: wf_lines.simps)
  then have IH: "wf_lines (filter P ls)" using Cons.IH by simp
  have "filter P ls \<noteq> [] \<longrightarrow> ls \<noteq> []" by auto
  with l IH show ?case by (simp add: wf_lines_Cons del: wf_lines.simps)
qed

lemma split_keepends_line:
  "line_ok l \<Longrightarrow> last l = LF \<Longrightarrow> split_keepends (l @ t) = l # split_keepends t"
proof (induction l)
  case Nil
  then show ?case by (simp add: line_ok_def)
next
  case (Cons c l)
  show ?case
  proof (cases "l = []")
    case True
    with Cons.prems show ?thesis by simp
  next
    case False
    with Cons.prems have "c \<noteq> LF" "line_ok l" "last l = LF"
      by (simp_all add: line_ok_Cons)
    with Cons.IH show ?thesis by simp
  qed
qed

lemma split_keepends_unterminated:
  "l \<noteq> [] \<Longrightarrow> LF \<notin> set l \<Longrightarrow> split_keepends l = [l]"
proof (induction l)
  case Nil
  then show ?case by simp
next
  case (Cons c l)
  then show ?case by (cases "l = []") simp_all
qed

lemma split_keepends_one: "line_ok l \<Longrightarrow> split_keepends l = [l]"
proof (cases "last l = LF")
  case True
  assume "line_ok l"
  from split_keepends_line [OF this True, of "[]"] show ?thesis by simp
next
  case False
  assume ok: "line_ok l"
  then have ne: "l \<noteq> []" and "LF \<notin> set (butlast l)" by (simp_all add: line_ok_def)
  from ne have "set (butlast l @ [last l]) = set l" by (metis append_butlast_last_id)
  then have "set l = insert (last l) (set (butlast l))" by auto
  with False \<open>LF \<notin> set (butlast l)\<close> have "LF \<notin> set l" by auto
  with ne show ?thesis by (rule split_keepends_unterminated)
qed

lemma split_keepends_concat: "wf_lines ls \<Longrightarrow> split_keepends (concat ls) = ls"
proof (induction ls)
  case Nil
  show ?case by simp
next
  case (Cons l ls)
  from Cons.prems have l: "line_ok l" "ls \<noteq> [] \<longrightarrow> last l = LF" and "wf_lines ls"
    by (simp_all add: wf_lines_Cons del: wf_lines.simps)
  then have IH: "split_keepends (concat ls) = ls" using Cons.IH by simp
  show ?case
  proof (cases "ls = []")
    case True
    with l show ?thesis by (simp add: split_keepends_one)
  next
    case False
    with l have "last l = LF" by simp
    with l IH show ?thesis by (simp add: split_keepends_line)
  qed
qed

lemma concat_split_keepends: "concat (split_keepends t) = t"
  by (induction t) (auto split: list.splits)

lemma CR_notin_universal_newlines: "CR \<notin> set (universal_newlines t)"
  by (induction t rule: universal_newlines.induct) (auto simp: CR_def LF_def)

lemma universal_newlines_id: "CR \<notin> set t \<Longrightarrow> universal_newlines t = t"
  by (induction t rule: universal_newlines.induct) auto

lemma reread_kept_lines:
  "split_keepends (universal_newlines (concat (filter P (split_keepends (universal_newlines t)))))
     = filter P (split_keepends (universal_newlines t))"
proof -
  let ?ls = "split_keepends (universal_newlines t)"
  have "set (concat (filter P ?ls)) \<subseteq> set (concat ?ls)" by auto
  also have "\<dots> = set (universal_newlines t)" by (simp only: concat_split_keepends)
  finally have "CR \<notin> set (concat (filter P ?ls))"
    using CR_notin_universal_newlines by blast
  then have "universal_newlines (concat (filter P ?ls)) = concat (filter P ?ls)"
    by (rule universal_newlines_id)
  moreover have "wf_lines (filter P ?ls)"
    by (rule wf_lines_filter [OF wf_split_keepends])
  ultimately show ?thesis by (simp add: split_keepends_concat)
qed

lemma readlines_after_writelines:
  assumes "readlines fs ip = Inr lines"
    and "writelines fs p (filter P lines) = Inr fs1"
    and "readlines fs1 p = Inr lines2"
  shows "lines2 = filter P lines"
proof -
  from readlines_stored [OF assms(1)] obtain t where
    t: "lines = split_keepends (universal_newlines t)" by blast
  from readlines_stored [OF assms(3)] obtain t1 where
    t1: "stored_text fs1 p = Some t1" "lines2 = split_keepends (universal_newlines t1)" by blast
  from writelines_stored [OF assms(2)] t1(1) have "t1 = concat (filter P lines)" by simp
  with t t1(2) show ?thesis by (simp add: reread_kept_lines)
qed

section \<open>A second pass\<close>

lemma filter_kept_again: "filter (\<lambda>l. \<not> P l) (filter (\<lambda>l. \<not> P l) xs) = filter (\<lambda>l. \<not> P l) xs"
  by simp

lemma filter_removed_again: "filter P (filter (\<lambda>l. \<not> P l) xs) = []"
  by (induction xs) simp_all

lemma write_one_file_then:
  "write_text (one_file p t) q x = Inr fs1 \<Longrightarrow>
   read_text fs1 q = Inr x \<and> (\<exists>fs2. write_text fs1 q' y = Inr fs2)"
  by (auto simp: write_text_def one_file_def read_text_def split: if_splits)

lemma second_run_A_one_file:
  assumes "clean_summary_file_A (one_file p t) p op = Inr (fs1, r1)"
  shows "\<exists>fs2 r2. clean_summary_file_A fs1 (output_saved_to r1) op2 = Inr (fs2, r2)"
proof -
  from assms obtain ls where
    w: "writelines (one_file p t) (output_saved_to r1) ls = Inr fs1"
    by (auto simp: clean_summary_file_A_run)
  then have rd: "readlines fs1 (output_saved_to r1) = Inr (split_keepends (universal_newlines (concat ls)))"
    using write_one_file_then [of p t "output_saved_to r1" "concat ls" fs1]
    by (simp add: writelines_def readlines_def)
  from w obtain fs2 where "writelines fs1 (case op2 of None \<Rightarrow> output_saved_to r1 | Some q \<Rightarrow> q)
      (filter (\<lambda>l. \<not> spec_predicate_A l) (split_keepends (universal_newlines (concat ls)))) = Inr fs2"
    using write_one_file_then [of p t "output_saved_to r1" "concat ls" fs1]
    unfolding writelines_def by blast
  with rd show ?thesis by (simp add: clean_summary_file_A_run)
qed

lemma second_run_B_one_file:
  assumes "clean_summary_file_B (one_file p t) p op = Inr (fs1, r1)"
  shows "\<exists>fs2 r2. clean_summary_file_B fs1 (output_saved_to_B r1) op2 = Inr (fs2, r2)"
proof -
  from assms obtain ls where
    w: "writelines (one_file p t) (output_saved_to_B r1) ls = Inr fs1"
    by (auto simp: clean_summary_file_B_run)
  then have rd: "readlines fs1 (output_saved_to_B r1) = Inr (split_keepends (universal_newlines (concat ls)))"
    using write_one_file_then [of p t "output_saved_to_B r1" "concat ls" fs1]
    by (simp add: writelines_def readlines_def)
  from w obtain fs2 where "writelines fs1 (case op2 of None \<Rightarrow> output_saved_to_B r1 | Some q \<Rightarrow> q)
      (filter (\<lambda>l. \<not> spec_predicate_B l) (split_keepends (universal_newlines (concat ls)))) = Inr fs2"
    using write_one_file_then [of p t "output_saved_to_B r1" "concat ls" fs1]
    unfolding writelines_def by blast
  with rd show ?thesis by (simp add: clean_summary_file_B_run)
qed

text \<open>
  C3. Running either script again on its own output removes nothing: the second run
  reads back exactly the lines the first one kept, reports zero removed lines, and writes
  the text it read. On the line sequences alone, the loop applied to its own kept lines
  keeps them all and counts nothing, because no kept line satisfies the predicate.
\<close>

theorem second_pass_removes_nothing:
  "(clean_summary_file_A fs ip op = Inr (fs1, r1) \<and>
    clean_summary_file_A fs1 (output_saved_to r1) op2 = Inr (fs2, r2) \<longrightarrow>
      empty_removed r2 = 0 \<and> bash_removed r2 = 0 \<and>
      original_count r2 = final_count r1 \<and> final_count r2 = original_count r2 \<and>
      stored_text fs2 (output_saved_to r2) = stored_text fs1 (output_saved_to r1)) \<and>
   (clean_summary_file_B fs ip op = Inr (fs1', r1') \<and>
    clean_summary_file_B fs1' (output_saved_to_B r1') op2 = Inr (fs2', r2') \<longrightarrow>
      removed_count_B r2' = 0 \<and>
      original_count_B r2' = final_count_B r1' \<and> final_count_B r2' = original_count_B r2' \<and>
      stored_text fs2' (output_saved_to_B r2') = stored_text fs1' (output_saved_to_B r1')) \<and>
   filter_lines_A (fst (filter_lines_A lines ([], 0, 0))) ([], 0, 0) =
     (fst (filter_lines_A lines ([], 0, 0)), 0, 0) \<and>
   filter_lines_B (fst (filter_lines_B lines ([], 0))) ([], 0) =
     (fst (filter_lines_B lines ([], 0)), 0) \<and>
   list_all (\<lambda>l. \<not> spec_predicate_A l) (fst (filter_lines_A lines ([], 0, 0))) \<and>
   list_all (\<lambda>l. \<not> spec_predicate_B l) (fst (filter_lines_B lines ([], 0)))"
proof (intro conjI impI; (elim conjE)?)
  assume run1: "clean_summary_file_A fs ip op = Inr (fs1, r1)"
    and run2: "clean_summary_file_A fs1 (output_saved_to r1) op2 = Inr (fs2, r2)"
  let ?keep = "\<lambda>l. \<not> spec_predicate_A l"
  from run1 obtain ls where rd1: "readlines fs ip = Inr ls"
    and w1: "writelines fs (output_saved_to r1) (filter ?keep ls) = Inr fs1"
    and f1: "final_count r1 = len (filter ?keep ls)"
    by (auto simp: clean_summary_file_A_run)
  from run2 obtain ls2 where rd2: "readlines fs1 (output_saved_to r1) = Inr ls2"
    by (auto simp: clean_summary_file_A_run)
  have ls2: "ls2 = filter ?keep ls"
    by (rule readlines_after_writelines [OF rd1 w1 rd2])
  have none: "filter spec_predicate_A ls2 = []" and all: "filter ?keep ls2 = ls2"
    unfolding ls2 by (simp_all add: filter_removed_again)
  from run2 rd2 have r2: "original_count r2 = len ls2"
    "empty_removed r2 + bash_removed r2 = len (filter spec_predicate_A ls2)"
    "empty_removed r2 = len (filter (\<lambda>l. strip l = []) ls2)"
    "bash_removed r2 = len (filter (\<lambda>l. startswith (lstrip l) Bash) ls2)"
    "final_count r2 = len (filter ?keep ls2)"
    and w2: "writelines fs1 (output_saved_to r2) (filter ?keep ls2) = Inr fs2"
    by (auto simp: clean_summary_file_A_run len_removed_A)
  from r2(2) none have "empty_removed r2 + bash_removed r2 = 0"
    by (simp add: len_def)
  moreover have "0 \<le> empty_removed r2" "0 \<le> bash_removed r2"
    by (simp_all add: r2(3,4) len_def)
  ultimately show "empty_removed r2 = 0" "bash_removed r2 = 0"
    by linarith+
  from r2(1) f1 ls2 show "original_count r2 = final_count r1" by simp
  from r2(1,5) all show "final_count r2 = original_count r2" by simp
  from writelines_stored [OF w2] writelines_stored [OF w1] all ls2
  show "stored_text fs2 (output_saved_to r2) = stored_text fs1 (output_saved_to r1)"
    by simp
next
  assume run1: "clean_summary_file_B fs ip op = Inr (fs1', r1')"
    and run2: "clean_summary_file_B fs1' (output_saved_to_B r1') op2 = Inr (fs2', r2')"
  let ?keep = "\<lambda>l. \<not> spec_predicate_B l"
  from run1 obtain ls where rd1: "readlines fs ip = Inr ls"
    and w1: "writelines fs (output_saved_to_B r1') (filter ?keep ls) = Inr fs1'"
    and f1: "final_count_B r1' = len (filter ?keep ls)"
    by (auto simp: clean_summary_file_B_run)
  from run2 obtain ls2 where rd2: "readlines fs1' (output_saved_to_B r1') = Inr ls2"
    by (auto simp: clean_summary_file_B_run)
  have ls2: "ls2 = filter ?keep ls"
    by (rule readlines_after_writelines [OF rd1 w1 rd2])
  have none: "filter spec_predicate_B ls2 = []" and all: "filter ?keep ls2 = ls2"
    unfolding ls2 by (simp_all add: filter_removed_again)
  from run2 rd2 have r2: "original_count_B r2' = len ls2"
    "removed_count_B r2' = len (filter spec_predicate_B ls2)"
    "final_count_B r2' = len (filter ?keep ls2)"
    and w2: "writelines fs1' (output_saved_to_B r2') (filter ?keep ls2) = Inr fs2'"
    by (auto simp: clean_summary_file_B_run)
  from r2(2) none show "removed_count_B r2' = 0" by (simp add: len_def)
  from r2(1) f1 ls2 show "original_count_B r2' = final_count_B r1'" by simp
  from r2(1,3) all show "final_count_B r2' = original_count_B r2'" by simp
  from writelines_stored [OF w2] writelines_stored [OF w1] all ls2
  show "stored_text fs2' (output_saved_to_B r2') = stored_text fs1' (output_saved_to_B r1')"
    by simp
next
  have "len (filter (\<lambda>l. strip l = []) (filter (\<lambda>l. \<not> spec_predicate_A l) lines)) = 0"
    "len (filter (\<lambda>l. startswith (lstrip l) Bash) (filter (\<lambda>l. \<not> spec_predicate_A l) lines)) = 0"
    by (auto simp: len_def spec_predicate_A_def filter_empty_conv)
  then show "filter_lines_A (fst (filter_lines_A lines ([], 0, 0))) ([], 0, 0) =
     (fst (filter_lines_A lines ([], 0, 0)), 0, 0)"
    by (simp add: filter_lines_A_acc)
  show "filter_lines_B (fst (filter_lines_B lines ([], 0))) ([], 0) =
     (fst (filter_lines_B lines ([], 0)), 0)"
    by (simp add: filter_lines_B_acc filter_removed_again len_def)
  show "list_all (\<lambda>l. \<not> spec_predicate_A l) (fst (filter_lines_A lines ([], 0, 0)))"
    by (simp add: filter_lines_A_acc list_all_iff)
  show "list_all (\<lambda>l. \<not> spec_predicate_B l) (fst (filter_lines_B lines ([], 0)))"
    by (simp add: filter_lines_B_acc list_all_iff)
qed


theorem second_pass_removes_nothing_witness:
  "(\<exists>fs1 r1 fs2 r2.
      clean_summary_file_A (one_file ''summary.md'' (py ''a\<newline>Bash b\<newline>\<newline>'' @ glyph @ py ''c''))
        ''summary.md'' (Some ''summary_cleaned.md'') = Inr (fs1, r1) \<and>
      clean_summary_file_A fs1 ''summary_cleaned.md'' None = Inr (fs2, r2) \<and>
      empty_removed r2 = 0 \<and> bash_removed r2 = 0 \<and> final_count r2 = original_count r2 \<and>
      stored_text fs2 ''summary_cleaned.md'' = stored_text fs1 ''summary_cleaned.md'') \<and>
   (\<exists>fs1 r1 fs2 r2.
      clean_summary_file_B (one_file ''summary.md'' (py ''a\<newline>Bash b\<newline>\<newline>'' @ glyph @ py ''c''))
        ''summary.md'' (Some ''summary_cleaned.md'') = Inr (fs1, r1) \<and>
      clean_summary_file_B fs1 ''summary_cleaned.md'' None = Inr (fs2, r2) \<and>
      removed_count_B r2 = 0 \<and> final_count_B r2 = original_count_B r2 \<and>
      stored_text fs2 ''summary_cleaned.md'' = stored_text fs1 ''summary_cleaned.md'')"
proof -
  let ?fs = "one_file ''summary.md'' (py ''a\<newline>Bash b\<newline>\<newline>'' @ glyph @ py ''c'')"
  obtain fa ra where a1:
    "clean_summary_file_A ?fs ''summary.md'' (Some ''summary_cleaned.md'') = Inr (fa, ra)"
    using clean_summary_file_A_one_file by blast
  then have oa: "output_saved_to ra = ''summary_cleaned.md''"
    by (auto simp: clean_summary_file_A_run)
  obtain fa2 ra2 where a2: "clean_summary_file_A fa (output_saved_to ra) None = Inr (fa2, ra2)"
    using second_run_A_one_file [OF a1] by blast
  then have oa2: "output_saved_to ra2 = ''summary_cleaned.md''"
    by (auto simp: clean_summary_file_A_run oa)
  obtain fb rb where b1:
    "clean_summary_file_B ?fs ''summary.md'' (Some ''summary_cleaned.md'') = Inr (fb, rb)"
    using clean_summary_file_B_one_file by blast
  then have ob: "output_saved_to_B rb = ''summary_cleaned.md''"
    by (auto simp: clean_summary_file_B_run)
  obtain fb2 rb2 where b2: "clean_summary_file_B fb (output_saved_to_B rb) None = Inr (fb2, rb2)"
    using second_run_B_one_file [OF b1] by blast
  then have ob2: "output_saved_to_B rb2 = ''summary_cleaned.md''"
    by (auto simp: clean_summary_file_B_run ob)
  note inst = second_pass_removes_nothing [of ?fs "''summary.md''" "Some ''summary_cleaned.md''"
      fa ra None fa2 ra2 fb rb fb2 rb2 "[]"]
  from inst a1 a2 have A: "empty_removed ra2 = 0 \<and> bash_removed ra2 = 0 \<and>
      final_count ra2 = original_count ra2 \<and>
      stored_text fa2 (output_saved_to ra2) = stored_text fa (output_saved_to ra)"
    by blast
  from inst b1 b2 have B: "removed_count_B rb2 = 0 \<and> final_count_B rb2 = original_count_B rb2 \<and>
      stored_text fb2 (output_saved_to_B rb2) = stored_text fb (output_saved_to_B rb)"
    by blast
  from a1 a2 A b1 b2 B show ?thesis
    unfolding oa oa2 ob ob2 by blast
qed

section \<open>Source lines and the lines read\<close>

lemma universal_newlines_Cons:
  "c \<noteq> CR \<Longrightarrow> universal_newlines (c # l) = c # universal_newlines l"
  by (cases l) simp_all

lemma spec_source_lines_eq_Nil: "spec_source_lines t = [] \<longleftrightarrow> t = []"
  by (induction t rule: spec_source_lines.induct) (auto split: list.splits)

lemma readlines_of_source_lines:
  "split_keepends (universal_newlines t) = map universal_newlines (spec_source_lines t)"
proof (induction t rule: spec_source_lines.induct)
  case 1
  show ?case by simp
next
  case (2 c)
  show ?case by (simp add: CR_def LF_def)
next
  case (3 c d cs)
  show ?case
  proof (cases "c = CR \<and> d = LF")
    case True
    with 3 show ?thesis by simp
  next
    case nl: False
    show ?thesis
    proof (cases "c = CR \<or> c = LF")
      case True
      with nl 3 show ?thesis by (auto simp: CR_def LF_def)
    next
      case False
      then have c: "c \<noteq> CR" "c \<noteq> LF" by simp_all
      obtain l ls where src: "spec_source_lines (d # cs) = l # ls"
        by (cases "spec_source_lines (d # cs)") (simp_all add: spec_source_lines_eq_Nil)
      from 3 nl False have IH:
        "split_keepends (universal_newlines (d # cs)) = map universal_newlines (spec_source_lines (d # cs))"
        by simp
      have "split_keepends (universal_newlines (c # d # cs)) =
            split_keepends (c # universal_newlines (d # cs))"
        using c by (simp add: universal_newlines_Cons)
      also have "\<dots> = (c # universal_newlines l) # map universal_newlines ls"
        using c by (simp add: IH src)
      also have "\<dots> = map universal_newlines ((c # l) # ls)"
        using c by (simp add: universal_newlines_Cons)
      also have "\<dots> = map universal_newlines (spec_source_lines (c # d # cs))"
        using c src by simp
      finally show ?thesis .
    qed
  qed
qed

lemma concat_spec_source_lines: "concat (spec_source_lines t) = t"
  by (induction t rule: spec_source_lines.induct)
    (auto simp: spec_source_lines_eq_Nil split: list.splits)

lemma spec_source_lines_no_CR:
  assumes "CR \<notin> set t"
  shows "map universal_newlines (spec_source_lines t) = spec_source_lines t"
proof -
  have "set (concat (spec_source_lines t)) = set t"
    by (simp only: concat_spec_source_lines)
  with assms have "\<forall>l\<in>set (spec_source_lines t). CR \<notin> set l" by auto
  then have "\<forall>l\<in>set (spec_source_lines t). universal_newlines l = l"
    by (simp add: universal_newlines_id)
  then show ?thesis by (simp add: map_idI)
qed

lemma output_text_Inr: "output_text (Inr (fs', r)) p = stored_text fs' p"
  by (simp add: output_text_def)

text \<open>
  C1. In both scripts the reported counts add up: the final count plus the removed count
  (for \<^verbatim>\<open>clean_summary.py\<close> the sum of the empty-line and the Bash-line counts) is the
  original count, where the original count is the number of lines read, the removed
  count the number of lines the predicate matches, and the final count the number of
  lines written: the output file holds the kept lines and nothing else, and read back it
  has as many lines as the final count says.
\<close>

theorem counts_add_up:
  assumes "readlines fs ip = Inr lines"
  shows "(clean_summary_file_A fs ip op = Inr (fs', r) \<longrightarrow>
            final_count r + (empty_removed r + bash_removed r) = original_count r \<and>
            original_count r = len lines \<and>
            empty_removed r + bash_removed r = len (filter spec_predicate_A lines) \<and>
            final_count r = len (fst (filter_lines_A lines ([], 0, 0))) \<and>
            stored_text fs' (case op of None \<Rightarrow> ip | Some p \<Rightarrow> p) =
              Some (concat (fst (filter_lines_A lines ([], 0, 0)))) \<and>
            (\<exists>w. stored_text fs' (case op of None \<Rightarrow> ip | Some p \<Rightarrow> p) = Some w \<and>
                 final_count r = len (split_keepends (universal_newlines w)))) \<and>
         (clean_summary_file_B fs ip op = Inr (fs'', r') \<longrightarrow>
            final_count_B r' + removed_count_B r' = original_count_B r' \<and>
            original_count_B r' = len lines \<and>
            removed_count_B r' = len (filter spec_predicate_B lines) \<and>
            final_count_B r' = len (fst (filter_lines_B lines ([], 0))) \<and>
            stored_text fs'' (case op of None \<Rightarrow> ip | Some p \<Rightarrow> p) =
              Some (concat (fst (filter_lines_B lines ([], 0)))) \<and>
            (\<exists>w. stored_text fs'' (case op of None \<Rightarrow> ip | Some p \<Rightarrow> p) = Some w \<and>
                 final_count_B r' = len (split_keepends (universal_newlines w))))"
proof -
  from readlines_stored [OF assms] obtain t where
    t: "lines = split_keepends (universal_newlines t)" by blast
  have reread: "split_keepends (universal_newlines (concat (filter P lines))) = filter P lines" for P
    unfolding t by (rule reread_kept_lines)
  show ?thesis
  proof (intro conjI impI)
    assume run: "clean_summary_file_A fs ip op = Inr (fs', r)"
    let ?kept = "filter (\<lambda>l. \<not> spec_predicate_A l) lines"
    have kept: "fst (filter_lines_A lines ([], 0, 0)) = ?kept"
      by (simp add: filter_lines_A_acc)
    from run assms have r: "original_count r = len lines"
      "empty_removed r + bash_removed r = len (filter spec_predicate_A lines)"
      "final_count r = len ?kept"
      and w: "writelines fs (case op of None \<Rightarrow> ip | Some p \<Rightarrow> p) ?kept = Inr fs'"
      by (auto simp: clean_summary_file_A_run len_removed_A)
    show "original_count r = len lines" by (rule r)
    show "empty_removed r + bash_removed r = len (filter spec_predicate_A lines)" by (rule r)
    show "final_count r = len (fst (filter_lines_A lines ([], 0, 0)))"
      by (simp add: r kept)
    show "final_count r + (empty_removed r + bash_removed r) = original_count r"
      using len_filter_split [of spec_predicate_A lines] by (simp add: r)
    show st: "stored_text fs' (case op of None \<Rightarrow> ip | Some p \<Rightarrow> p) =
        Some (concat (fst (filter_lines_A lines ([], 0, 0))))"
      unfolding kept by (rule writelines_stored [OF w])
    have "final_count r = len (split_keepends (universal_newlines (concat ?kept)))"
      by (simp add: r reread)
    with st show "\<exists>w. stored_text fs' (case op of None \<Rightarrow> ip | Some p \<Rightarrow> p) = Some w \<and>
        final_count r = len (split_keepends (universal_newlines w))"
      unfolding kept by blast
  next
    assume run: "clean_summary_file_B fs ip op = Inr (fs'', r')"
    let ?kept = "filter (\<lambda>l. \<not> spec_predicate_B l) lines"
    have kept: "fst (filter_lines_B lines ([], 0)) = ?kept"
      by (simp add: filter_lines_B_acc)
    from run assms have r: "original_count_B r' = len lines"
      "removed_count_B r' = len (filter spec_predicate_B lines)"
      "final_count_B r' = len ?kept"
      and w: "writelines fs (case op of None \<Rightarrow> ip | Some p \<Rightarrow> p) ?kept = Inr fs''"
      by (auto simp: clean_summary_file_B_run)
    show "original_count_B r' = len lines" by (rule r)
    show "removed_count_B r' = len (filter spec_predicate_B lines)" by (rule r)
    show "final_count_B r' = len (fst (filter_lines_B lines ([], 0)))"
      by (simp add: r kept)
    show "final_count_B r' + removed_count_B r' = original_count_B r'"
      using len_filter_split [of spec_predicate_B lines] by (simp add: r)
    show st: "stored_text fs'' (case op of None \<Rightarrow> ip | Some p \<Rightarrow> p) =
        Some (concat (fst (filter_lines_B lines ([], 0))))"
      unfolding kept by (rule writelines_stored [OF w])
    have "final_count_B r' = len (split_keepends (universal_newlines (concat ?kept)))"
      by (simp add: r reread)
    with st show "\<exists>w. stored_text fs'' (case op of None \<Rightarrow> ip | Some p \<Rightarrow> p) = Some w \<and>
        final_count_B r' = len (split_keepends (universal_newlines w))"
      unfolding kept by blast
  qed
qed

theorem counts_add_up_witness:
  "readlines (one_file ''summary.md'' (py ''Bash ls\<newline>ok\<newline>'' @ glyph @ py '' x\<newline>'')) ''summary.md''
     = Inr [py ''Bash ls\<newline>'', py ''ok\<newline>'', glyph @ py '' x\<newline>''] \<and>
   (\<exists>fs' r. clean_summary_file_A (one_file ''summary.md'' (py ''Bash ls\<newline>ok\<newline>'' @ glyph @ py '' x\<newline>''))
        ''summary.md'' (Some ''summary_cleaned.md'') = Inr (fs', r) \<and>
      final_count r + (empty_removed r + bash_removed r) = original_count r \<and>
      original_count r = 3 \<and> final_count r = 2 \<and>
      stored_text fs' ''summary_cleaned.md'' = Some (py ''ok\<newline>'' @ glyph @ py '' x\<newline>'')) \<and>
   (\<exists>fs' r. clean_summary_file_B (one_file ''summary.md'' (py ''Bash ls\<newline>ok\<newline>'' @ glyph @ py '' x\<newline>''))
        ''summary.md'' (Some ''summary_cleaned.md'') = Inr (fs', r) \<and>
      final_count_B r + removed_count_B r = original_count_B r \<and>
      original_count_B r = 3 \<and> final_count_B r = 2 \<and>
      stored_text fs' ''summary_cleaned.md'' = Some (py ''Bash ls\<newline>ok\<newline>''))"
proof -
  let ?fs = "one_file ''summary.md'' (py ''Bash ls\<newline>ok\<newline>'' @ glyph @ py '' x\<newline>'')"
  let ?ls = "[py ''Bash ls\<newline>'', py ''ok\<newline>'', glyph @ py '' x\<newline>'']"
  have rd: "readlines ?fs ''summary.md'' = Inr ?ls"
    by (simp add: readlines_one_file py_def glyph_def LF_def CR_def)
  obtain fa ra where a: "clean_summary_file_A ?fs ''summary.md'' (Some ''summary_cleaned.md'') = Inr (fa, ra)"
    using clean_summary_file_A_one_file by blast
  obtain fb rb where b: "clean_summary_file_B ?fs ''summary.md'' (Some ''summary_cleaned.md'') = Inr (fb, rb)"
    using clean_summary_file_B_one_file by blast
  have fa: "fst (filter_lines_A ?ls ([], 0, 0)) = [py ''ok\<newline>'', glyph @ py '' x\<newline>'']"
    by (simp add: eval_defs)
  have fb: "fst (filter_lines_B ?ls ([], 0)) = [py ''Bash ls\<newline>'', py ''ok\<newline>'']"
    by (simp add: eval_defs)
  note inst = counts_add_up [OF rd, of "Some ''summary_cleaned.md''" fa ra fb rb]
  from inst a have A: "final_count ra + (empty_removed ra + bash_removed ra) = original_count ra"
    "original_count ra = len ?ls" "final_count ra = len (fst (filter_lines_A ?ls ([], 0, 0)))"
    and SA: "stored_text fa (case Some ''summary_cleaned.md'' of None \<Rightarrow> ''summary.md'' | Some p \<Rightarrow> p) =
      Some (concat (fst (filter_lines_A ?ls ([], 0, 0))))"
    by blast+
  from inst b have B: "final_count_B rb + removed_count_B rb = original_count_B rb"
    "original_count_B rb = len ?ls" "final_count_B rb = len (fst (filter_lines_B ?ls ([], 0)))"
    and SB: "stored_text fb (case Some ''summary_cleaned.md'' of None \<Rightarrow> ''summary.md'' | Some p \<Rightarrow> p) =
      Some (concat (fst (filter_lines_B ?ls ([], 0))))"
    by blast+
  have n: "original_count ra = 3" "final_count ra = 2" "original_count_B rb = 3" "final_count_B rb = 2"
    unfolding A B fa fb by (simp_all add: len_def)
  from SA have sa: "stored_text fa ''summary_cleaned.md'' = Some (py ''ok\<newline>'' @ glyph @ py '' x\<newline>'')"
    unfolding fa by simp
  from SB have sb: "stored_text fb ''summary_cleaned.md'' = Some (py ''Bash ls\<newline>ok\<newline>'')"
    unfolding fb by (simp add: py_def)
  from n A(1) B(1) sa sb
  have "final_count ra + (empty_removed ra + bash_removed ra) = original_count ra \<and>
        original_count ra = 3 \<and> final_count ra = 2 \<and>
        stored_text fa ''summary_cleaned.md'' = Some (py ''ok\<newline>'' @ glyph @ py '' x\<newline>'')"
    and "final_count_B rb + removed_count_B rb = original_count_B rb \<and>
        original_count_B rb = 3 \<and> final_count_B rb = 2 \<and>
        stored_text fb ''summary_cleaned.md'' = Some (py ''Bash ls\<newline>ok\<newline>'')"
    by simp_all
  with rd a b show ?thesis by blast
qed

text \<open>
  C2, as the scripts have it. The lines a script filters are the lines \<^verbatim>\<open>readlines()\<close>
  returns: the source lines of the file with every \<^verbatim>\<open>"\r\n"\<close> and lone \<^verbatim>\<open>"\r"\<close> turned
  into \<^verbatim>\<open>"\n"\<close> by text-mode reading, and the source lines themselves when the file has no
  \<^verbatim>\<open>"\r"\<close>. In both scripts the lines written are exactly those of them the predicate
  rejects, in their input order and with that text unchanged, and the output file holds
  their concatenation with nothing added.
\<close>

theorem output_is_kept_subsequence:
  assumes "read_text fs ip = Inr t" and "readlines fs ip = Inr lines"
  shows "lines = map universal_newlines (spec_source_lines t) \<and>
         (CR \<notin> set t \<longrightarrow> lines = spec_source_lines t) \<and>
         (clean_summary_file_A fs ip op = Inr (fs', r) \<longrightarrow>
            stored_text fs' (case op of None \<Rightarrow> ip | Some p \<Rightarrow> p) =
              Some (concat (fst (filter_lines_A lines ([], 0, 0))))) \<and>
         fst (filter_lines_A lines ([], 0, 0)) = filter (\<lambda>l. \<not> spec_predicate_A l) lines \<and>
         subseq (fst (filter_lines_A lines ([], 0, 0))) lines \<and>
         (clean_summary_file_B fs ip op = Inr (fs'', r') \<longrightarrow>
            stored_text fs'' (case op of None \<Rightarrow> ip | Some p \<Rightarrow> p) =
              Some (concat (fst (filter_lines_B lines ([], 0))))) \<and>
         fst (filter_lines_B lines ([], 0)) = filter (\<lambda>l. \<not> spec_predicate_B l) lines \<and>
         subseq (fst (filter_lines_B lines ([], 0))) lines"
proof (intro conjI impI)
  from assms show src: "lines = map universal_newlines (spec_source_lines t)"
    by (simp add: readlines_def readlines_of_source_lines)
  show "lines = spec_source_lines t" if "CR \<notin> set t"
    unfolding src by (rule spec_source_lines_no_CR [OF that])
  show a: "fst (filter_lines_A lines ([], 0, 0)) = filter (\<lambda>l. \<not> spec_predicate_A l) lines"
    by (simp add: filter_lines_A_acc)
  show b: "fst (filter_lines_B lines ([], 0)) = filter (\<lambda>l. \<not> spec_predicate_B l) lines"
    by (simp add: filter_lines_B_acc)
  show "subseq (fst (filter_lines_A lines ([], 0, 0))) lines"
    unfolding a by (rule subseq_filter_left)
  show "subseq (fst (filter_lines_B lines ([], 0))) lines"
    unfolding b by (rule subseq_filter_left)
next
  assume "clean_summary_file_A fs ip op = Inr (fs', r)"
  with assms(2) have "writelines fs (case op of None \<Rightarrow> ip | Some p \<Rightarrow> p)
      (filter (\<lambda>l. \<not> spec_predicate_A l) lines) = Inr fs'"
    by (auto simp: clean_summary_file_A_run)
  then show "stored_text fs' (case op of None \<Rightarrow> ip | Some p \<Rightarrow> p) =
      Some (concat (fst (filter_lines_A lines ([], 0, 0))))"
    by (simp add: writelines_stored filter_lines_A_acc)
next
  assume "clean_summary_file_B fs ip op = Inr (fs'', r')"
  with assms(2) have "writelines fs (case op of None \<Rightarrow> ip | Some p \<Rightarrow> p)
      (filter (\<lambda>l. \<not> spec_predicate_B l) lines) = Inr fs''"
    by (auto simp: clean_summary_file_B_run)
  then show "stored_text fs'' (case op of None \<Rightarrow> ip | Some p \<Rightarrow> p) =
      Some (concat (fst (filter_lines_B lines ([], 0))))"
    by (simp add: writelines_stored filter_lines_B_acc)
qed

theorem output_is_kept_subsequence_witness:
  "read_text (one_file ''summary.md'' (py ''a\<newline>Bash b\<newline>'' @ glyph @ py ''c\<newline>\<newline>d'')) ''summary.md'' =
     Inr (py ''a\<newline>Bash b\<newline>'' @ glyph @ py ''c\<newline>\<newline>d'') \<and>
   CR \<notin> set (py ''a\<newline>Bash b\<newline>'' @ glyph @ py ''c\<newline>\<newline>d'') \<and>
   readlines (one_file ''summary.md'' (py ''a\<newline>Bash b\<newline>'' @ glyph @ py ''c\<newline>\<newline>d'')) ''summary.md'' =
     Inr [py ''a\<newline>'', py ''Bash b\<newline>'', glyph @ py ''c\<newline>'', py ''\<newline>'', py ''d''] \<and>
   spec_source_lines (py ''a\<newline>Bash b\<newline>'' @ glyph @ py ''c\<newline>\<newline>d'') =
     [py ''a\<newline>'', py ''Bash b\<newline>'', glyph @ py ''c\<newline>'', py ''\<newline>'', py ''d''] \<and>
   (\<exists>fs' r. clean_summary_file_A
        (one_file ''summary.md'' (py ''a\<newline>Bash b\<newline>'' @ glyph @ py ''c\<newline>\<newline>d''))
        ''summary.md'' (Some ''summary_cleaned.md'') = Inr (fs', r) \<and>
      stored_text fs' ''summary_cleaned.md'' = Some (py ''a\<newline>'' @ glyph @ py ''c\<newline>d'')) \<and>
   (\<exists>fs' r. clean_summary_file_B
        (one_file ''summary.md'' (py ''a\<newline>Bash b\<newline>'' @ glyph @ py ''c\<newline>\<newline>d''))
        ''summary.md'' (Some ''summary_cleaned.md'') = Inr (fs', r) \<and>
      stored_text fs' ''summary_cleaned.md'' = Some (py ''a\<newline>Bash b\<newline>\<newline>d''))"
proof -
  let ?t = "py ''a\<newline>Bash b\<newline>'' @ glyph @ py ''c\<newline>\<newline>d''"
  let ?fs = "one_file ''summary.md'' ?t"
  let ?ls = "[py ''a\<newline>'', py ''Bash b\<newline>'', glyph @ py ''c\<newline>'', py ''\<newline>'', py ''d'']"
  have rt: "read_text ?fs ''summary.md'' = Inr ?t"
    by (rule read_text_one_file)
  have cr: "CR \<notin> set ?t"
    by (simp add: py_def glyph_def CR_def)
  have rd: "readlines ?fs ''summary.md'' = Inr ?ls"
    by (simp add: readlines_one_file py_def glyph_def LF_def CR_def)
  obtain fa ra where a:
    "clean_summary_file_A ?fs ''summary.md'' (Some ''summary_cleaned.md'') = Inr (fa, ra)"
    using clean_summary_file_A_one_file by blast
  obtain fb rb where b:
    "clean_summary_file_B ?fs ''summary.md'' (Some ''summary_cleaned.md'') = Inr (fb, rb)"
    using clean_summary_file_B_one_file by blast
  have la: "fst (filter_lines_A ?ls ([], 0, 0)) = [py ''a\<newline>'', glyph @ py ''c\<newline>'', py ''d'']"
    by (simp add: eval_defs)
  have lb: "fst (filter_lines_B ?ls ([], 0)) = [py ''a\<newline>'', py ''Bash b\<newline>'', py ''\<newline>'', py ''d'']"
    by (simp add: eval_defs)
  note inst = output_is_kept_subsequence [OF rt rd, of "Some ''summary_cleaned.md''" fa ra fb rb]
  from inst cr have "?ls = spec_source_lines ?t"
    by blast
  then have src: "spec_source_lines ?t = ?ls"
    by (rule sym)
  from inst a have "stored_text fa (case Some ''summary_cleaned.md'' of None \<Rightarrow> ''summary.md'' | Some p \<Rightarrow> p) =
      Some (concat (fst (filter_lines_A ?ls ([], 0, 0))))"
    by blast
  then have sa: "stored_text fa ''summary_cleaned.md'' = Some (py ''a\<newline>'' @ glyph @ py ''c\<newline>d'')"
    unfolding la by (simp add: py_def)
  from inst b have "stored_text fb (case Some ''summary_cleaned.md'' of None \<Rightarrow> ''summary.md'' | Some p \<Rightarrow> p) =
      Some (concat (fst (filter_lines_B ?ls ([], 0))))"
    by blast
  then have sb: "stored_text fb ''summary_cleaned.md'' = Some (py ''a\<newline>Bash b\<newline>\<newline>d'')"
    unfolding lb by (simp add: py_def)
  from rt cr rd src a b sa sb show ?thesis by blast
qed

text \<open>
  C2 does not hold of the source form of a line. With a \<^verbatim>\<open>"\r\n"\<close> terminator the
  kept line is written with another terminator: the file
  \<^verbatim>\<open>"keep\r\n"\<close> has the one source line \<^verbatim>\<open>"keep\r\n"\<close>, neither predicate matches it,
  and both scripts write \<^verbatim>\<open>"keep\n"\<close>.
\<close>

theorem output_is_kept_subsequence_counterexample:
  "spec_source_lines (py ''keep'' @ [CR, LF]) = [py ''keep'' @ [CR, LF]] \<and>
   \<not> spec_predicate_A (py ''keep'' @ [CR, LF]) \<and>
   \<not> spec_predicate_B (py ''keep'' @ [CR, LF]) \<and>
   output_text (clean_summary_file_A (one_file ''summary.md'' (py ''keep'' @ [CR, LF]))
       ''summary.md'' (Some ''summary_cleaned.md'')) ''summary_cleaned.md'' = Some (py ''keep'' @ [LF]) \<and>
   output_text (clean_summary_file_B (one_file ''summary.md'' (py ''keep'' @ [CR, LF]))
       ''summary.md'' (Some ''summary_cleaned.md'')) ''summary_cleaned.md'' = Some (py ''keep'' @ [LF]) \<and>
   py ''keep'' @ [LF] \<noteq> py ''keep'' @ [CR, LF]"
proof (intro conjI)
  let ?fs = "one_file ''summary.md'' (py ''keep'' @ [CR, LF])"
  show "spec_source_lines (py ''keep'' @ [CR, LF]) = [py ''keep'' @ [CR, LF]]"
    by (simp add: py_def CR_def LF_def)
  show "\<not> spec_predicate_A (py ''keep'' @ [CR, LF])"
    by (simp add: spec_predicate_A_def eval_defs CR_def LF_def)
  show "\<not> spec_predicate_B (py ''keep'' @ [CR, LF])"
    by (simp add: spec_predicate_B_def eval_defs CR_def LF_def)
  show "py ''keep'' @ [LF] \<noteq> py ''keep'' @ [CR, LF]"
    by (simp add: py_def)
  have rd: "readlines ?fs ''summary.md'' = Inr [py ''keep'' @ [LF]]"
    by (simp add: readlines_one_file py_def LF_def CR_def)
  have la: "filter_lines_A [py ''keep'' @ [LF]] ([], 0, 0) = ([py ''keep'' @ [LF]], 0, 0)"
    by (simp add: eval_defs LF_def)
  have lb: "filter_lines_B [py ''keep'' @ [LF]] ([], 0) = ([py ''keep'' @ [LF]], 0)"
    by (simp add: eval_defs LF_def)
  obtain fa ra where a:
    "clean_summary_file_A ?fs ''summary.md'' (Some ''summary_cleaned.md'') = Inr (fa, ra)"
    using clean_summary_file_A_one_file by blast
  from clean_summary_file_A_loop [OF rd a la]
  have "stored_text fa ''summary_cleaned.md'' = Some (py ''keep'' @ [LF])"
    by (auto dest: writelines_stored)
  then show "output_text (clean_summary_file_A ?fs ''summary.md'' (Some ''summary_cleaned.md''))
       ''summary_cleaned.md'' = Some (py ''keep'' @ [LF])"
    by (simp add: a output_text_Inr)
  obtain fb rb where b:
    "clean_summary_file_B ?fs ''summary.md'' (Some ''summary_cleaned.md'') = Inr (fb, rb)"
    using clean_summary_file_B_one_file by blast
  from clean_summary_file_B_loop [OF rd b lb]
  have "stored_text fb ''summary_cleaned.md'' = Some (py ''keep'' @ [LF])"
    by (auto dest: writelines_stored)
  then show "output_text (clean_summary_file_B ?fs ''summary.md'' (Some ''summary_cleaned.md''))
       ''summary_cleaned.md'' = Some (py ''keep'' @ [LF])"
    by (simp add: b output_text_Inr)
qed

end
